theory Spec2Isabelle
  imports Complex_Main
begin

section \<open>Path tracing of a synthesis result (\<open>DimensionalSynthesis.__get_path\<close>)\<close>

text \<open>
  The development embeds \<^verbatim>\<open>__get_path\<close> of
  \<^verbatim>\<open>core/synthesis/dimensional_synthesis/__init__.py\<close>: the preparation of the
  solver input from a stored result, the two sweeps \<^verbatim>\<open>for interval in (3, -3)\<close>
  and the driver loop \<^verbatim>\<open>while dp < i_count\<close> with its two branches.

  Numbers. The drive angles and the cumulative angles are Python floats that only ever
  hold sums and differences of \<open>0\<close>, \<open>3\<close> and \<open>360\<close>, reduced modulo \<open>360\<close>; on such
  values float arithmetic is exact, so they are modelled as \<open>int\<close>, and Python's
  \<^verbatim>\<open>%\<close> with the positive divisor \<open>360\<close> is \<open>mod\<close>. Coordinates are opaque
  data handed from the solver to the path; they are pairs of reals. The pair
  \<^verbatim>\<open>(nan, nan)\<close> is a value of its own.
\<close>

subsection \<open>Data\<close>

type_synonym coord = "real \<times> real"

text \<open>\<^verbatim>\<open>VJoint\<close>: the kind of a joint; \<open>P\<close> and \<open>RP\<close> are the sliding kinds.\<close>

datatype VJoint = R | P | RP

text \<open>
  One entry of the solver's result: a plain coordinate, or the pair (slot, pin) that
  the source reads with \<^verbatim>\<open>solved_result[i][0]\<close> and \<^verbatim>\<open>solved_result[i][1]\<close>.
\<close>

datatype solved = Single coord | SlotPin coord coord

text \<open>
  Modelled from the spec: the class \<^verbatim>\<open>VPoint\<close> of \<^verbatim>\<open>core.libs\<close> and its method
  \<^verbatim>\<open>move\<close> are not part of the sources at hand. A joint has its kind and its
  "current position" state, and \<^verbatim>\<open>move\<close> sets that state to the new coordinate
  (for a sliding joint: to the new slot and pin pair).
\<close>

record vpoint =
  vtype :: VJoint
  vpos :: solved

definition move :: "vpoint \<Rightarrow> solved \<Rightarrow> vpoint" where
  "move v p = v\<lparr>vpos := p\<rparr>"

text \<open>An entry of a path: the sentinel \<^verbatim>\<open>(nan, nan)\<close> or a coordinate.\<close>

datatype sample = NaN | Pt coord

text \<open>The Python exceptions that the traced code can meet.\<close>

datatype exn = ValueError | IndexError | TypeError | KeyError | RuntimeError

text \<open>
  The tuple \<^verbatim>\<open>(func, *params, target)\<close> built for every step of the expression;
  \<^verbatim>\<open>e[0]\<close> is its first component.
\<close>

type_synonym expr = "string \<times> string list \<times> string"

text \<open>
  The stored result \<^verbatim>\<open>self.mechanism_data[row]\<close>, a dictionary. \<open>pos\<close> keeps
  the order of its keys (the loop over it numbers the joints); \<open>P_coord n\<close> is the
  entry under the key \<^verbatim>\<open>f'P{n}'\<close>, absent for some \<open>n\<close>; a joint name
  \<^verbatim>\<open>f'P{n}'\<close> is represented by its number \<open>n\<close>.
\<close>

record mech_result =
  Expression :: string
  pos :: "(nat \<times> coord) list"
  P_coord :: "nat \<rightharpoonup> coord"
  same :: "nat \<rightharpoonup> nat"
  cus :: "(nat \<times> nat) list"
  Graph :: "(nat \<times> nat) list"

text \<open>
  The functions imported from \<^verbatim>\<open>core.io\<close> and \<^verbatim>\<open>core.libs\<close>, which are not
  part of the sources at hand, are parameters of the model. \<open>graph2vpoints\<close> stands
  for \<^verbatim>\<open>graph2vpoints(Graph(...), pos, cus, same)\<close>. \<open>expr_solving\<close> either
  raises (\<open>Inl\<close>) or returns the list of solved joints (\<open>Inr\<close>).
\<close>

record libs =
  str_before :: "string \<Rightarrow> string \<Rightarrow> string"
  str_between :: "string \<Rightarrow> string \<Rightarrow> string \<Rightarrow> string"
  graph2vpoints :: "(nat \<times> nat) list \<Rightarrow> (nat \<rightharpoonup> coord) \<Rightarrow> (nat \<times> nat) list
    \<Rightarrow> (nat \<rightharpoonup> nat) \<Rightarrow> vpoint list"
  expr_solving :: "expr list \<Rightarrow> (nat \<rightharpoonup> nat) \<Rightarrow> vpoint list \<Rightarrow> int list
    \<Rightarrow> exn + solved list"

text \<open>
  One call of the position solver, as seen from outside: the driver pointer at the
  call, the arguments that change between calls, and what the solver answered. The
  list of these calls is the only effect of the loop besides its result.
\<close>

record call =
  c_dp :: nat
  c_angles :: "int list"
  c_vpoints :: "vpoint list"
  c_outcome :: "exn + solved list"

text \<open>The local variables of \<^verbatim>\<open>__get_path\<close> that the loop changes, and the calls made.\<close>

record work =
  path :: "sample list list"
  vpoints :: "vpoint list"
  angles :: "int list"
  angles_params :: "int list"
  dp :: nat
  calls :: "call list"

text \<open>The widget, as far as \<^verbatim>\<open>__get_path\<close> reads it.\<close>

record widget =
  mechanism_data :: "mech_result list"

subsection \<open>Preparation of the solver input (lines 532 to 567)\<close>

text \<open>\<^verbatim>\<open>s.split(c)\<close> for a separator of one character: never an empty list.\<close>

fun split_on :: "char \<Rightarrow> string \<Rightarrow> string list" where
  "split_on c [] = [[]]"
| "split_on c (x # xs) =
     (if x = c then [] # split_on c xs
      else (case split_on c xs of
              [] \<Rightarrow> [[x]]
            | p # ps \<Rightarrow> (x # p) # ps))"

definition parse_exprs :: "libs \<Rightarrow> string \<Rightarrow> expr list" where
  "parse_exprs L s =
     map (\<lambda>e. (str_before L e ''['',
               split_on CHR '','' (str_between L e ''['' '']''),
               str_between L e ''('' '')''))
         (split_on CHR '';'' s)"

text \<open>
  The loop \<^verbatim>\<open>for n in result['pos']\<close>: the position of joint \<open>n\<close> is the entry
  \<^verbatim>\<open>result[f'P{n}']\<close> when there is one (the \<^verbatim>\<open>KeyError\<close> is caught) and
  \<^verbatim>\<open>result['pos'][n]\<close> otherwise; joints not in \<open>same\<close> are numbered in order.
\<close>

fun pos_loop :: "mech_result \<Rightarrow> (nat \<times> coord) list
    \<Rightarrow> (nat \<rightharpoonup> coord) \<times> (nat \<rightharpoonup> nat) \<times> nat
    \<Rightarrow> (nat \<rightharpoonup> coord) \<times> (nat \<rightharpoonup> nat) \<times> nat" where
  "pos_loop r [] acc = acc"
| "pos_loop r ((n, v) # rest) (ps, mapping, p_count) =
     (let ps' = ps(n \<mapsto> (case P_coord r n of Some c \<Rightarrow> c | None \<Rightarrow> v))
      in if same r n = None
         then pos_loop r rest (ps', mapping(p_count \<mapsto> n), p_count + 1)
         else pos_loop r rest (ps', mapping, p_count))"

definition exprs_of :: "libs \<Rightarrow> mech_result \<Rightarrow> expr list" where
  "exprs_of L r = parse_exprs L (Expression r)"

definition mapping_of :: "mech_result \<Rightarrow> (nat \<rightharpoonup> nat)" where
  "mapping_of r = fst (snd (pos_loop r (pos r) (Map.empty, Map.empty, 0)))"

definition vpoints_of :: "libs \<Rightarrow> mech_result \<Rightarrow> vpoint list" where
  "vpoints_of L r =
     graph2vpoints L (Graph r) (fst (pos_loop r (pos r) (Map.empty, Map.empty, 0)))
       (cus r) (same r)"

text \<open>\<^verbatim>\<open>i_count = sum(1 for e in exprs if e[0] == 'PLAP')\<close>\<close>

definition i_count_of :: "expr list \<Rightarrow> nat" where
  "i_count_of exprs = length (filter (\<lambda>e. fst e = ''PLAP'') exprs)"

text \<open>The solver as the loop calls it: \<^verbatim>\<open>expr_solving(exprs, mapping, vpoints, angles)\<close>.\<close>

definition solver_of :: "libs \<Rightarrow> mech_result \<Rightarrow> vpoint list \<Rightarrow> int list \<Rightarrow> exn + solved list" where
  "solver_of L r = expr_solving L (exprs_of L r) (mapping_of r)"

subsection \<open>The two branches of the loop body\<close>

text \<open>
  \<^verbatim>\<open>for i in range(vpoint_count): path[i].append((nan, nan))\<close>
\<close>

fun append_nan :: "nat list \<Rightarrow> sample list list \<Rightarrow> exn + sample list list" where
  "append_nan [] pth = Inr pth"
| "append_nan (i # rest) pth =
     (if i < length pth then append_nan rest (pth[i := pth ! i @ [NaN]])
      else Inl IndexError)"

definition sliding :: "vpoint \<Rightarrow> bool" where
  "sliding v = (vtype v = P \<or> vtype v = RP)"

text \<open>
  The loop of the \<^verbatim>\<open>else\<close> branch (lines 585 to 593). An index beyond the
  solver's result raises \<^verbatim>\<open>IndexError\<close>. The solver gives a pair (slot, pin) to
  the sliding joints and a plain coordinate to the others; an entry of the other shape
  is outside its contract, does not fit \<^verbatim>\<open>move\<close>, and is modelled as a
  \<^verbatim>\<open>TypeError\<close>.
\<close>

fun update_with_result :: "solved list \<Rightarrow> nat list \<Rightarrow> sample list list \<times> vpoint list
    \<Rightarrow> exn + sample list list \<times> vpoint list" where
  "update_with_result solved_result [] pv = Inr pv"
| "update_with_result solved_result (i # rest) (pth, vps) =
     (if i < length pth \<and> i < length vps \<and> i < length solved_result then
        (if sliding (vps ! i) then
           (case solved_result ! i of
              SlotPin slot pin \<Rightarrow>
                update_with_result solved_result rest
                  (pth[i := pth ! i @ [Pt pin]], vps[i := move (vps ! i) (SlotPin slot pin)])
            | Single _ \<Rightarrow> Inl TypeError)
         else
           (case solved_result ! i of
              Single c \<Rightarrow>
                update_with_result solved_result rest
                  (pth[i := pth ! i @ [Pt c]], vps[i := move (vps ! i) (Single c)])
            | SlotPin _ _ \<Rightarrow> Inl TypeError))
      else Inl IndexError)"

text \<open>
  One pass through the body of \<^verbatim>\<open>while dp < i_count\<close> (lines 574 to 599). Only
  \<^verbatim>\<open>ValueError\<close> is caught; any other exception of the solver leaves the function.
\<close>

definition step :: "(vpoint list \<Rightarrow> int list \<Rightarrow> exn + solved list) \<Rightarrow> nat \<Rightarrow> int \<Rightarrow> work
    \<Rightarrow> exn + work" where
  "step solve vpoint_count interval s =
     (let outcome = solve (vpoints s) (angles s);
          s1 = s\<lparr>calls := calls s @ [\<lparr>c_dp = dp s, c_angles = angles s,
                                      c_vpoints = vpoints s, c_outcome = outcome\<rparr>]\<rparr>
      in case outcome of
           Inl e \<Rightarrow>
             (if e = ValueError then
                (case append_nan [0..<vpoint_count] (path s) of
                   Inl e' \<Rightarrow> Inl e'
                 | Inr path' \<Rightarrow>
                     (if dp s < length (angles s) then
                        Inr (s1\<lparr>path := path',
                                angles := (angles s)[dp s := angles s ! dp s - interval],
                                dp := dp s + 1\<rparr>)
                      else Inl IndexError))
              else Inl e)
         | Inr solved_result \<Rightarrow>
             (case update_with_result solved_result [0..<vpoint_count] (path s, vpoints s) of
                Inl e \<Rightarrow> Inl e
              | Inr (path', vpoints') \<Rightarrow>
                  (if dp s < length (angles s) \<and> dp s < length (angles_params s) then
                     (let a1 = (angles s)[dp s := (angles s ! dp s + interval) mod 360];
                          p1 = (angles_params s)[dp s := angles_params s ! dp s + \<bar>interval\<bar>];
                          s2 = s1\<lparr>path := path', vpoints := vpoints',
                                  angles := a1, angles_params := p1\<rparr>
                      in if p1 ! dp s > 360
                         then Inr (s2\<lparr>angles := a1[dp s := a1 ! dp s - interval],
                                      dp := dp s + 1\<rparr>)
                         else Inr s2)
                   else Inl IndexError)))"

subsection \<open>The driver loop and the two sweeps\<close>

text \<open>
  \<^verbatim>\<open>for interval in (3, -3)\<close>: the loop variable takes these two values and no
  other.
\<close>

datatype direction = Forward | Backward

fun interval_of :: "direction \<Rightarrow> int" where
  "interval_of Forward = 3"
| "interval_of Backward = - 3"

function sweep :: "(vpoint list \<Rightarrow> int list \<Rightarrow> exn + solved list) \<Rightarrow> nat \<Rightarrow> nat \<Rightarrow> direction
    \<Rightarrow> work \<Rightarrow> exn + work" where
  "sweep solve vpoint_count i_count d s =
     (if dp s < i_count then
        (case step solve vpoint_count (interval_of d) s of
           Inl e \<Rightarrow> Inl e
         | Inr s' \<Rightarrow> sweep solve vpoint_count i_count d s')
      else Inr s)"
  by pat_completeness auto
termination
proof (relation "measures [\<lambda>(solve, vc, ic, d, s). ic - dp s,
                           \<lambda>(solve, vc, ic, d, s). nat (363 - angles_params s ! dp s)]")
  show "wf (measures [\<lambda>(solve, vc, ic, d, s). ic - dp s,
                      \<lambda>(solve, vc, ic, d, s). nat (363 - angles_params s ! dp s)])"
    by simp
next
  fix solve :: "vpoint list \<Rightarrow> int list \<Rightarrow> exn + solved list"
    and vpoint_count i_count :: nat and d :: direction and s s' :: work
  assume run: "dp s < i_count" and st: "step solve vpoint_count (interval_of d) s = Inr s'"
  from st have "dp s' = dp s + 1 \<or>
         (dp s' = dp s \<and> dp s < length (angles_params s) \<and>
          angles_params s' ! dp s = angles_params s ! dp s + 3 \<and>
          angles_params s ! dp s + 3 \<le> 360)"
    by (cases d) (auto simp: step_def Let_def split: sum.splits if_splits prod.splits)
  with run
  show "((solve, vpoint_count, i_count, d, s'), (solve, vpoint_count, i_count, d, s))
        \<in> measures [\<lambda>(solve, vc, ic, d, s). ic - dp s,
                     \<lambda>(solve, vc, ic, d, s). nat (363 - angles_params s ! dp s)]"
    by auto
qed

declare sweep.simps [simp del]

text \<open>
  The body of \<^verbatim>\<open>for interval in (3, -3)\<close>: the driver pointer and the angles are
  set anew for each direction; the path, the joints and the cumulative angles
  \<^verbatim>\<open>angles_params\<close> (created once, before the loop) are carried over.
\<close>

fun for_intervals :: "(vpoint list \<Rightarrow> int list \<Rightarrow> exn + solved list) \<Rightarrow> nat \<Rightarrow> nat
    \<Rightarrow> direction list \<Rightarrow> work \<Rightarrow> exn + work" where
  "for_intervals solve vpoint_count i_count [] s = Inr s"
| "for_intervals solve vpoint_count i_count (d # rest) s =
     (case sweep solve vpoint_count i_count d (s\<lparr>dp := 0, angles := replicate i_count 0\<rparr>) of
        Inl e \<Rightarrow> Inl e
      | Inr s' \<Rightarrow> for_intervals solve vpoint_count i_count rest s')"

text \<open>The state before the sweeps (lines 561 to 568).\<close>

definition init_work :: "vpoint list \<Rightarrow> nat \<Rightarrow> work" where
  "init_work vps i_count =
     \<lparr>path = replicate (length vps) [], vpoints = vps, angles = replicate i_count 0,
      angles_params = replicate i_count 0, dp = 0, calls = []\<rparr>"

text \<open>The whole of \<^verbatim>\<open>__get_path\<close> for one stored result, with the final state kept.\<close>

definition trace_result :: "libs \<Rightarrow> mech_result \<Rightarrow> exn + work" where
  "trace_result L r =
     (let vps = vpoints_of L r;
          vpoint_count = length vps;
          i_count = i_count_of (exprs_of L r)
      in for_intervals (solver_of L r) vpoint_count i_count [Forward, Backward]
           (init_work vps i_count))"

text \<open>
  \<^verbatim>\<open>__get_path(self, row)\<close>: reads \<^verbatim>\<open>self.mechanism_data[row]\<close> and returns the
  path; the widget is returned as the call leaves it. Both callers return before the
  call when \<^verbatim>\<open>row\<close> is negative, so the row is a natural number; a row beyond the
  list is an \<^verbatim>\<open>IndexError\<close>.
\<close>

definition get_path :: "libs \<Rightarrow> widget \<Rightarrow> nat \<Rightarrow> (exn + sample list list) \<times> widget" where
  "get_path L w row =
     (if row < length (mechanism_data w)
      then (map_sum id path (trace_result L (mechanism_data w ! row)), w)
      else (Inl IndexError, w))"



subsection \<open>Notions used to state the properties\<close>

text \<open>
  The coordinate that a solved entry contributes to a path: the pin of a pair, the
  coordinate itself otherwise.
\<close>

fun coord_of :: "solved \<Rightarrow> coord" where
  "coord_of (Single c) = c"
| "coord_of (SlotPin slot pin) = pin"

text \<open>
  A solved entry fits a joint when it is a pair exactly for a sliding joint; a result
  of the solver fits the joints when it has a fitting entry for each of them.
\<close>

fun shape_ok :: "vpoint \<Rightarrow> solved \<Rightarrow> bool" where
  "shape_ok v (Single c) = (\<not> sliding v)"
| "shape_ok v (SlotPin slot pin) = sliding v"

definition frame_ok :: "vpoint list \<Rightarrow> solved list \<Rightarrow> bool" where
  "frame_ok vps sr = (length vps \<le> length sr \<and> (\<forall>i<length vps. shape_ok (vps ! i) (sr ! i)))"

text \<open>
  The contract of the position solver, for joints of the kinds \<open>kinds\<close>: it raises
  nothing but \<^verbatim>\<open>ValueError\<close>, and a result it returns fits the joints. The stronger
  contract \<open>solver_succeeds_always\<close>: it never raises.
\<close>

definition solver_ok :: "(vpoint list \<Rightarrow> int list \<Rightarrow> exn + solved list) \<Rightarrow> VJoint list \<Rightarrow> bool" where
  "solver_ok solve kinds =
     (\<forall>vps a. map vtype vps = kinds \<longrightarrow>
        (case solve vps a of Inl e \<Rightarrow> e = ValueError | Inr sr \<Rightarrow> frame_ok vps sr))"

definition solver_succeeds_always :: "(vpoint list \<Rightarrow> int list \<Rightarrow> exn + solved list) \<Rightarrow> VJoint list \<Rightarrow> bool" where
  "solver_succeeds_always solve kinds =
     (\<forall>vps a. map vtype vps = kinds \<longrightarrow> (\<exists>sr. solve vps a = Inr sr \<and> frame_ok vps sr))"

text \<open>
  The record of the call that one pass of the loop body makes, and the state after
  either branch of the body, written out.
\<close>

definition call_of :: "work \<Rightarrow> exn + solved list \<Rightarrow> call" where
  "call_of s outcome = \<lparr>c_dp = dp s, c_angles = angles s, c_vpoints = vpoints s, c_outcome = outcome\<rparr>"

definition fail_state :: "int \<Rightarrow> work \<Rightarrow> work" where
  "fail_state interval s =
     s\<lparr>calls := calls s @ [call_of s (Inl ValueError)],
       path := map (\<lambda>p. p @ [NaN]) (path s),
       angles := (angles s)[dp s := angles s ! dp s - interval],
       dp := dp s + 1\<rparr>"

definition succ_state :: "int \<Rightarrow> solved list \<Rightarrow> work \<Rightarrow> work" where
  "succ_state interval sr s =
     (let a1 = (angles s)[dp s := (angles s ! dp s + interval) mod 360];
          p1 = (angles_params s)[dp s := angles_params s ! dp s + \<bar>interval\<bar>];
          s2 = s\<lparr>calls := calls s @ [call_of s (Inr sr)],
                 path := map (\<lambda>i. path s ! i @ [Pt (coord_of (sr ! i))]) [0..<length (path s)],
                 vpoints := map (\<lambda>i. move (vpoints s ! i) (sr ! i)) [0..<length (vpoints s)],
                 angles := a1, angles_params := p1\<rparr>
      in if p1 ! dp s > 360
         then s2\<lparr>angles := a1[dp s := a1 ! dp s - interval], dp := dp s + 1\<rparr>
         else s2)"

text \<open>
  The shape of the state that the loop keeps: one path and one joint for each of the
  \<open>vpoint_count\<close> joints, the joints of the kinds \<open>kinds\<close>, one angle and one
  cumulative angle for each of the \<open>i_count\<close> drivers.
\<close>

definition wf_state :: "VJoint list \<Rightarrow> nat \<Rightarrow> work \<Rightarrow> bool" where
  "wf_state kinds i_count s =
     (length (path s) = length kinds \<and> map vtype (vpoints s) = kinds \<and>
      length (angles s) = i_count \<and> length (angles_params s) = i_count)"

text \<open>
  The sample that a call leaves in the path of joint \<open>i\<close>; a call has failed when
  the solver raised; the calls made while driver \<open>j\<close> was the active one.
\<close>

definition sample_of :: "nat \<Rightarrow> call \<Rightarrow> sample" where
  "sample_of i c = (case c_outcome c of Inl e \<Rightarrow> NaN | Inr sr \<Rightarrow> Pt (coord_of (sr ! i)))"

definition failed :: "call \<Rightarrow> bool" where
  "failed c = isl (c_outcome c)"

definition calls_for :: "nat \<Rightarrow> call list \<Rightarrow> call list" where
  "calls_for j cs = filter (\<lambda>c. c_dp c = j) cs"

subsection \<open>Invariants\<close>

text \<open>
  Every path is the list of the samples of the calls made so far, in their order.
\<close>

definition aligned :: "work \<Rightarrow> bool" where
  "aligned s = (\<forall>i<length (path s). path s ! i = map (sample_of i) (calls s))"

text \<open>
  What was recorded of a call is what the solver answered to the recorded arguments.
\<close>

definition logged :: "(vpoint list \<Rightarrow> int list \<Rightarrow> exn + solved list) \<Rightarrow> VJoint list \<Rightarrow> work \<Rightarrow> bool" where
  "logged solve kinds s =
     (\<forall>c\<in>set (calls s). c_outcome c = solve (c_vpoints c) (c_angles c) \<and>
                         map vtype (c_vpoints c) = kinds)"

text \<open>
  The angles at a call, and in a state between two passes of the loop body: the
  drivers after the active one are at 0, the active one is wrapped to the range from 0
  (included) to 360 (excluded), and every angle is at least \<open>-3\<close> and less than 363.
\<close>

definition call_ok :: "nat \<Rightarrow> call \<Rightarrow> bool" where
  "call_ok i_count c =
     (c_dp c < i_count \<and> length (c_angles c) = i_count \<and>
      (\<forall>i. c_dp c < i \<and> i < i_count \<longrightarrow> c_angles c ! i = 0) \<and>
      0 \<le> c_angles c ! c_dp c \<and> c_angles c ! c_dp c < 360 \<and>
      (\<forall>i<i_count. - 3 \<le> c_angles c ! i \<and> c_angles c ! i < 363))"

definition angles_inv :: "nat \<Rightarrow> work \<Rightarrow> bool" where
  "angles_inv i_count s =
     (dp s \<le> i_count \<and>
      (\<forall>i. dp s < i \<and> i < i_count \<longrightarrow> angles s ! i = 0) \<and>
      (dp s < i_count \<longrightarrow> 0 \<le> angles s ! dp s \<and> angles s ! dp s < 360) \<and>
      (\<forall>i<i_count. - 3 \<le> angles s ! i \<and> angles s ! i < 363) \<and>
      (\<forall>c\<in>set (calls s). call_ok i_count c))"

subsection \<open>Example inputs\<close>

text \<open>
  A mechanism of two joints, one of them sliding; a solver that always succeeds and
  one that always fails; the imported functions, with string helpers that cut a step
  \<^verbatim>\<open>PLAP[P0,L0,a0](P2)\<close> at its brackets; a stored result with a given expression;
  an expression with two \<^verbatim>\<open>PLAP\<close> steps. \<open>demo_fail_final\<close> is the state in which
  the trace of that expression ends when every call of the solver fails.
\<close>

definition demo_vpoints :: "vpoint list" where
  "demo_vpoints = [\<lparr>vtype = R, vpos = Single (0, 0)\<rparr>, \<lparr>vtype = RP, vpos = SlotPin (0, 0) (1, 0)\<rparr>]"

definition demo_frame :: "vpoint list \<Rightarrow> solved list" where
  "demo_frame vps = map (\<lambda>v. if sliding v then SlotPin (0, 0) (1, 0) else Single (2, 0)) vps"

definition solver_succeeds :: "expr list \<Rightarrow> (nat \<rightharpoonup> nat) \<Rightarrow> vpoint list \<Rightarrow> int list \<Rightarrow> exn + solved list" where
  "solver_succeeds exprs mapping vps a = Inr (demo_frame vps)"

definition solver_fails :: "expr list \<Rightarrow> (nat \<rightharpoonup> nat) \<Rightarrow> vpoint list \<Rightarrow> int list \<Rightarrow> exn + solved list" where
  "solver_fails exprs mapping vps a = Inl ValueError"


definition demo_libs :: "(expr list \<Rightarrow> (nat \<rightharpoonup> nat) \<Rightarrow> vpoint list \<Rightarrow> int list \<Rightarrow> exn + solved list) \<Rightarrow> libs" where
  "demo_libs solver =
     \<lparr>str_before = (\<lambda>s f. takeWhile (\<lambda>c. [c] \<noteq> f) s),
      str_between = (\<lambda>s f b. takeWhile (\<lambda>c. [c] \<noteq> b) (drop 1 (dropWhile (\<lambda>c. [c] \<noteq> f) s))),
      graph2vpoints = (\<lambda>g ps cs sm. demo_vpoints),
      expr_solving = solver\<rparr>"

definition two_drivers :: string where
  "two_drivers = ''PLAP[P0,L0,a0](P2);PLAP[P1,L1,a1](P3)''"

definition demo_result :: "string \<Rightarrow> mech_result" where
  "demo_result e =
     \<lparr>Expression = e, pos = [(0, (0, 0)), (1, (1, 0))], P_coord = Map.empty,
      same = Map.empty, cus = [], Graph = [(0, 1)]\<rparr>"

definition demo_fail_final :: work where
  "demo_fail_final =
     \<lparr>path = [[NaN, NaN, NaN, NaN], [NaN, NaN, NaN, NaN]],
      vpoints = demo_vpoints,
      angles = [3, 3],
      angles_params = [0, 0],
      dp = 2,
      calls = [\<lparr>c_dp = 0, c_angles = [0, 0], c_vpoints = demo_vpoints, c_outcome = Inl ValueError\<rparr>,
               \<lparr>c_dp = 1, c_angles = [- 3, 0], c_vpoints = demo_vpoints, c_outcome = Inl ValueError\<rparr>,
               \<lparr>c_dp = 0, c_angles = [0, 0], c_vpoints = demo_vpoints, c_outcome = Inl ValueError\<rparr>,
               \<lparr>c_dp = 1, c_angles = [3, 0], c_vpoints = demo_vpoints, c_outcome = Inl ValueError\<rparr>]\<rparr>"

section \<open>Properties\<close>

subsection \<open>The two branches of the loop body\<close>

lemma append_nan_spec:
  "distinct js \<Longrightarrow> \<forall>i\<in>set js. i < length pth \<Longrightarrow>
   append_nan js pth =
     Inr (map (\<lambda>j. if j \<in> set js then pth ! j @ [NaN] else pth ! j) [0..<length pth])"
proof (induction js arbitrary: pth)
  case Nil
  then show ?case by (simp add: map_nth)
next
  case (Cons i js)
  have "append_nan (i # js) pth = append_nan js (pth[i := pth ! i @ [NaN]])"
    using Cons.prems by simp
  also have "\<dots> = Inr (map (\<lambda>j. if j \<in> set js then pth[i := pth ! i @ [NaN]] ! j @ [NaN]
                                  else pth[i := pth ! i @ [NaN]] ! j) [0..<length pth])"
    using Cons.IH [of "pth[i := pth ! i @ [NaN]]"] Cons.prems by simp
  also have "\<dots> = Inr (map (\<lambda>j. if j \<in> set (i # js) then pth ! j @ [NaN] else pth ! j)
                         [0..<length pth])"
    using Cons.prems by (auto simp: nth_list_update)
  finally show ?case .
qed

lemma append_nan_all:
  "append_nan [0..<length pth] pth = Inr (map (\<lambda>p. p @ [NaN]) pth)"
proof -
  have "append_nan [0..<length pth] pth =
        Inr (map (\<lambda>j. if j \<in> set [0..<length pth] then pth ! j @ [NaN] else pth ! j)
               [0..<length pth])"
    by (rule append_nan_spec) simp_all
  also have "map (\<lambda>j. if j \<in> set [0..<length pth] then pth ! j @ [NaN] else pth ! j)
               [0..<length pth] = map (\<lambda>p. p @ [NaN]) pth"
    by (rule nth_equalityI) simp_all
  finally show ?thesis .
qed

lemma update_with_result_spec:
  "distinct js \<Longrightarrow> \<forall>i\<in>set js. i < length pth \<and> i < length vps \<Longrightarrow>
   (if \<forall>i\<in>set js. i < length sr \<and> shape_ok (vps ! i) (sr ! i)
    then update_with_result sr js (pth, vps) =
      Inr (map (\<lambda>j. if j \<in> set js then pth ! j @ [Pt (coord_of (sr ! j))] else pth ! j)
             [0..<length pth],
           map (\<lambda>j. if j \<in> set js then move (vps ! j) (sr ! j) else vps ! j)
             [0..<length vps])
    else isl (update_with_result sr js (pth, vps)))"
proof (induction js arbitrary: pth vps)
  case Nil
  then show ?case by (simp add: map_nth)
next
  case (Cons i js)
  from Cons.prems have i: "i < length pth" "i < length vps" "i \<notin> set js" "distinct js"
    and js: "\<forall>k\<in>set js. k < length pth \<and> k < length vps" by auto
  show ?case
  proof (cases "i < length sr \<and> shape_ok (vps ! i) (sr ! i)")
    case False
    then show ?thesis using i by (cases "sr ! i") auto
  next
    case True
    define pth' where "pth' = pth[i := pth ! i @ [Pt (coord_of (sr ! i))]]"
    define vps' where "vps' = vps[i := move (vps ! i) (sr ! i)]"
    have unfold: "update_with_result sr (i # js) (pth, vps) = update_with_result sr js (pth', vps')"
      using True i by (cases "sr ! i") (auto simp: pth'_def vps'_def)
    have same: "\<forall>k\<in>set js. vps' ! k = vps ! k"
      using i by (auto simp: vps'_def nth_list_update)
    have IH: "(if \<forall>k\<in>set js. k < length sr \<and> shape_ok (vps' ! k) (sr ! k)
      then update_with_result sr js (pth', vps') =
        Inr (map (\<lambda>j. if j \<in> set js then pth' ! j @ [Pt (coord_of (sr ! j))] else pth' ! j)
               [0..<length pth'],
             map (\<lambda>j. if j \<in> set js then move (vps' ! j) (sr ! j) else vps' ! j)
               [0..<length vps'])
      else isl (update_with_result sr js (pth', vps')))"
      using Cons.IH [of pth' vps'] i js by (simp add: pth'_def vps'_def)
    show ?thesis
    proof (cases "\<forall>k\<in>set js. k < length sr \<and> shape_ok (vps ! k) (sr ! k)")
      case False
      then show ?thesis using IH same unfold by auto
    next
      case all: True
      have p: "map (\<lambda>j. if j \<in> set js then pth' ! j @ [Pt (coord_of (sr ! j))] else pth' ! j)
               [0..<length pth'] =
            map (\<lambda>j. if j \<in> set (i # js) then pth ! j @ [Pt (coord_of (sr ! j))] else pth ! j)
               [0..<length pth]"
        using i by (auto simp: pth'_def nth_list_update)
      have v: "map (\<lambda>j. if j \<in> set js then move (vps' ! j) (sr ! j) else vps' ! j)
               [0..<length vps'] =
            map (\<lambda>j. if j \<in> set (i # js) then move (vps ! j) (sr ! j) else vps ! j)
               [0..<length vps]"
        using i by (auto simp: vps'_def nth_list_update)
      from all same have "\<forall>k\<in>set js. k < length sr \<and> shape_ok (vps' ! k) (sr ! k)" by simp
      with IH have "update_with_result sr js (pth', vps') =
        Inr (map (\<lambda>j. if j \<in> set js then pth' ! j @ [Pt (coord_of (sr ! j))] else pth' ! j)
               [0..<length pth'],
             map (\<lambda>j. if j \<in> set js then move (vps' ! j) (sr ! j) else vps' ! j)
               [0..<length vps'])" by simp
      with unfold p v all True show ?thesis by simp
    qed
  qed
qed

lemma update_with_result_all:
  assumes "length pth = length vps"
  shows "(if frame_ok vps sr
    then update_with_result sr [0..<length vps] (pth, vps) =
      Inr (map (\<lambda>j. pth ! j @ [Pt (coord_of (sr ! j))]) [0..<length pth],
           map (\<lambda>j. move (vps ! j) (sr ! j)) [0..<length vps])
    else isl (update_with_result sr [0..<length vps] (pth, vps)))"
proof -
  have *: "(if \<forall>i\<in>set [0..<length vps]. i < length sr \<and> shape_ok (vps ! i) (sr ! i)
    then update_with_result sr [0..<length vps] (pth, vps) =
      Inr (map (\<lambda>j. if j \<in> set [0..<length vps] then pth ! j @ [Pt (coord_of (sr ! j))] else pth ! j)
             [0..<length pth],
           map (\<lambda>j. if j \<in> set [0..<length vps] then move (vps ! j) (sr ! j) else vps ! j)
             [0..<length vps])
    else isl (update_with_result sr [0..<length vps] (pth, vps)))"
    by (rule update_with_result_spec) (simp_all add: assms)
  have c: "(\<forall>i\<in>set [0..<length vps]. i < length sr \<and> shape_ok (vps ! i) (sr ! i)) = frame_ok vps sr"
  proof
    assume a: "\<forall>i\<in>set [0..<length vps]. i < length sr \<and> shape_ok (vps ! i) (sr ! i)"
    have "length vps \<le> length sr"
    proof (rule ccontr)
      assume "\<not> length vps \<le> length sr"
      then have "length sr \<in> set [0..<length vps]" by simp
      with a have "length sr < length sr" by blast
      then show False by simp
    qed
    with a show "frame_ok vps sr" by (simp add: frame_ok_def)
  next
    assume "frame_ok vps sr"
    then show "\<forall>i\<in>set [0..<length vps]. i < length sr \<and> shape_ok (vps ! i) (sr ! i)"
      by (auto simp: frame_ok_def)
  qed
  have p: "map (\<lambda>j. if j \<in> set [0..<length vps] then pth ! j @ [Pt (coord_of (sr ! j))] else pth ! j)
             [0..<length pth] = map (\<lambda>j. pth ! j @ [Pt (coord_of (sr ! j))]) [0..<length pth]"
    using assms by simp
  have v: "map (\<lambda>j. if j \<in> set [0..<length vps] then move (vps ! j) (sr ! j) else vps ! j)
             [0..<length vps] = map (\<lambda>j. move (vps ! j) (sr ! j)) [0..<length vps]"
    by simp
  show ?thesis using * unfolding c p v .
qed

subsection \<open>One pass of the loop body\<close>

lemma step_fail:
  assumes "solve (vpoints s) (angles s) = Inl ValueError"
    and "length (path s) = vpoint_count" and "dp s < length (angles s)"
  shows "step solve vpoint_count interval s = Inr (fail_state interval s)"
  using assms append_nan_all [of "path s"]
  by (simp add: step_def fail_state_def call_of_def)

lemma step_raise:
  assumes "solve (vpoints s) (angles s) = Inl e" and "e \<noteq> ValueError"
  shows "step solve vpoint_count interval s = Inl e"
  using assms by (simp add: step_def)

lemma step_succ:
  assumes "solve (vpoints s) (angles s) = Inr sr" and "frame_ok (vpoints s) sr"
    and "length (path s) = vpoint_count" and "length (vpoints s) = vpoint_count"
    and "dp s < length (angles s)" and "dp s < length (angles_params s)"
  shows "step solve vpoint_count interval s = Inr (succ_state interval sr s)"
proof -
  have "update_with_result sr [0..<vpoint_count] (path s, vpoints s) =
      Inr (map (\<lambda>j. path s ! j @ [Pt (coord_of (sr ! j))]) [0..<length (path s)],
           map (\<lambda>j. move (vpoints s ! j) (sr ! j)) [0..<length (vpoints s)])"
    using update_with_result_all [of "path s" "vpoints s" sr] assms by simp
  then show ?thesis
    using assms by (simp add: step_def succ_state_def call_of_def Let_def)
qed

lemma step_bad_frame:
  assumes "solve (vpoints s) (angles s) = Inr sr" and "\<not> frame_ok (vpoints s) sr"
    and "length (path s) = vpoint_count" and "length (vpoints s) = vpoint_count"
  shows "isl (step solve vpoint_count interval s)"
proof -
  have "isl (update_with_result sr [0..<vpoint_count] (path s, vpoints s))"
    using update_with_result_all [of "path s" "vpoints s" sr] assms by simp
  then obtain e where "update_with_result sr [0..<vpoint_count] (path s, vpoints s) = Inl e"
    by (cases "update_with_result sr [0..<vpoint_count] (path s, vpoints s)") auto
  then show ?thesis
    using assms by (simp add: step_def)
qed

lemma wf_stateD:
  "wf_state kinds i_count s \<Longrightarrow> length (path s) = length kinds"
  "wf_state kinds i_count s \<Longrightarrow> length (vpoints s) = length kinds"
  "wf_state kinds i_count s \<Longrightarrow> map vtype (vpoints s) = kinds"
  "wf_state kinds i_count s \<Longrightarrow> length (angles s) = i_count"
  "wf_state kinds i_count s \<Longrightarrow> length (angles_params s) = i_count"
  by (auto simp: wf_state_def)

text \<open>
  A pass of the loop body that ends without an exception took one of the two branches:
  the solver raised \<^verbatim>\<open>ValueError\<close>, or it returned a result that fits the joints.
\<close>

lemma step_Inr_cases:
  assumes st: "step solve (length kinds) interval s = Inr s'"
    and wf: "wf_state kinds i_count s" and run: "dp s < i_count"
  shows "(solve (vpoints s) (angles s) = Inl ValueError \<and> s' = fail_state interval s) \<or>
         (\<exists>sr. solve (vpoints s) (angles s) = Inr sr \<and> frame_ok (vpoints s) sr \<and>
               s' = succ_state interval sr s)"
proof (cases "solve (vpoints s) (angles s)")
  case (Inl e)
  show ?thesis
  proof (cases "e = ValueError")
    case True
    with Inl run st step_fail [of solve s "length kinds" interval] wf_stateD [OF wf]
    show ?thesis by simp
  next
    case False
    with Inl st step_raise [of solve s e "length kinds" interval] show ?thesis by simp
  qed
next
  case (Inr sr)
  show ?thesis
  proof (cases "frame_ok (vpoints s) sr")
    case True
    with Inr run st step_succ [of solve s sr "length kinds" interval] wf_stateD [OF wf]
    show ?thesis by simp
  next
    case False
    with Inr st step_bad_frame [of solve s sr "length kinds" interval] wf_stateD [OF wf]
    show ?thesis by simp
  qed
qed

lemma step_total:
  assumes ok: "solver_ok solve kinds" and wf: "wf_state kinds i_count s" and run: "dp s < i_count"
  shows "\<exists>s'. step solve (length kinds) interval s = Inr s'"
proof (cases "solve (vpoints s) (angles s)")
  case (Inl e)
  with ok wf_stateD(3) [OF wf] have "e = ValueError"
    by (auto simp: solver_ok_def split: sum.splits)
  with Inl run step_fail [of solve s "length kinds" interval] wf_stateD [OF wf]
  show ?thesis by simp
next
  case (Inr sr)
  with ok wf_stateD(3) [OF wf] have "frame_ok (vpoints s) sr"
    by (auto simp: solver_ok_def split: sum.splits)
  with Inr run step_succ [of solve s sr "length kinds" interval] wf_stateD [OF wf]
  show ?thesis by simp
qed

lemma wf_fail_state: "wf_state kinds ic s \<Longrightarrow> wf_state kinds ic (fail_state interval s)"
  by (simp add: wf_state_def fail_state_def)

lemma vtype_moved:
  "map vtype (map (\<lambda>i. move (vps ! i) (sr ! i)) [0..<length vps]) = map vtype vps"
  by (rule nth_equalityI) (simp_all add: move_def)

lemma wf_succ_state: "wf_state kinds ic s \<Longrightarrow> wf_state kinds ic (succ_state interval sr s)"
  using vtype_moved [of "vpoints s" sr]
  by (simp add: wf_state_def succ_state_def Let_def)

lemma step_wf:
  assumes "step solve (length kinds) interval s = Inr s'"
    and "wf_state kinds i_count s" and "dp s < i_count"
  shows "wf_state kinds i_count s'"
  using step_Inr_cases [OF assms] assms(2) wf_fail_state wf_succ_state by blast

subsection \<open>Invariants and termination of the driver loop\<close>

text \<open>
  The rule for invariants of the driver loop: what holds before the loop and is kept by
  every pass of the body holds when the loop ends, and then the pointer has reached
  the number of drivers.
\<close>

lemma sweep_invariant:
  assumes "sweep solve vpoint_count i_count d s = Inr t"
    and "vpoint_count = length kinds"
    and "wf_state kinds i_count s" and "I s"
    and "\<And>s s'. wf_state kinds i_count s \<Longrightarrow> I s \<Longrightarrow> dp s < i_count \<Longrightarrow>
           step solve (length kinds) (interval_of d) s = Inr s' \<Longrightarrow> I s'"
  shows "wf_state kinds i_count t \<and> I t \<and> i_count \<le> dp t"
  using assms
proof (induction solve vpoint_count i_count d s rule: sweep.induct)
  case (1 solve vpoint_count i_count d s)
  show ?case
  proof (cases "dp s < i_count")
    case False
    with "1.prems" show ?thesis by (simp add: sweep.simps)
  next
    case True
    with "1.prems"(1) obtain s' where st: "step solve vpoint_count (interval_of d) s = Inr s'"
      and rest: "sweep solve vpoint_count i_count d s' = Inr t"
      by (auto simp: sweep.simps [of solve vpoint_count i_count d s] split: sum.splits)
    from st "1.prems"(2) have st': "step solve (length kinds) (interval_of d) s = Inr s'" by simp
    have "wf_state kinds i_count s'"
      using step_wf [OF st' "1.prems"(3) True] .
    moreover have "I s'" using "1.prems"(5) [OF "1.prems"(3,4) True st'] .
    ultimately show ?thesis using "1.IH" [OF True st rest "1.prems"(2)] "1.prems"(5) by blast
  qed
qed

text \<open>
  Under the contract of the solver the driver loop, the two sweeps and the whole trace
  return.
\<close>

lemma sweep_total:
  assumes "solver_ok solve kinds" and "wf_state kinds i_count s" and "vpoint_count = length kinds"
  shows "\<exists>t. sweep solve vpoint_count i_count d s = Inr t"
  using assms
proof (induction solve vpoint_count i_count d s rule: sweep.induct)
  case (1 solve vpoint_count i_count d s)
  show ?case
  proof (cases "dp s < i_count")
    case False
    then show ?thesis by (simp add: sweep.simps)
  next
    case True
    from step_total [OF "1.prems"(1,2) True, of "interval_of d"] "1.prems"(3)
    obtain s' where st: "step solve vpoint_count (interval_of d) s = Inr s'" by auto
    with "1.prems"(3) have "wf_state kinds i_count s'"
      using step_wf [of solve kinds "interval_of d" s s' i_count] "1.prems"(2) True by simp
    from "1.IH" [OF True st "1.prems"(1) this "1.prems"(3)]
    obtain t where "sweep solve vpoint_count i_count d s' = Inr t" by auto
    with st True show ?thesis by (simp add: sweep.simps [of solve vpoint_count i_count d s])
  qed
qed

lemma wf_reset:
  "wf_state kinds i_count s \<Longrightarrow> wf_state kinds i_count (s\<lparr>dp := 0, angles := replicate i_count 0\<rparr>)"
  by (simp add: wf_state_def)

lemma for_intervals_invariant:
  assumes "for_intervals solve vpoint_count i_count ds s = Inr t"
    and "vpoint_count = length kinds"
    and "wf_state kinds i_count s" and "I s"
    and "\<And>d s s'. wf_state kinds i_count s \<Longrightarrow> I s \<Longrightarrow> dp s < i_count \<Longrightarrow>
           step solve (length kinds) (interval_of d) s = Inr s' \<Longrightarrow> I s'"
    and "\<And>s. wf_state kinds i_count s \<Longrightarrow> I s \<Longrightarrow> I (s\<lparr>dp := 0, angles := replicate i_count 0\<rparr>)"
  shows "wf_state kinds i_count t \<and> I t"
  using assms(1,3,4)
proof (induction ds arbitrary: s)
  case Nil
  then show ?case by simp
next
  case (Cons d ds)
  let ?s0 = "s\<lparr>dp := 0, angles := replicate i_count 0\<rparr>"
  from Cons.prems(1) obtain s' where sw: "sweep solve vpoint_count i_count d ?s0 = Inr s'"
    and rest: "for_intervals solve vpoint_count i_count ds s' = Inr t"
    by (auto split: sum.splits)
  have "wf_state kinds i_count ?s0" using Cons.prems(2) by (rule wf_reset)
  moreover have "I ?s0" using assms(6) [OF Cons.prems(2,3)] .
  ultimately have "wf_state kinds i_count s' \<and> I s' \<and> i_count \<le> dp s'"
    using sweep_invariant [OF sw assms(2), of I] assms(5) by blast
  with Cons.IH [OF rest] show ?case by simp
qed

lemma for_intervals_total:
  assumes "solver_ok solve kinds" and "wf_state kinds i_count s" and "vpoint_count = length kinds"
  shows "\<exists>t. for_intervals solve vpoint_count i_count ds s = Inr t"
  using assms(2)
proof (induction ds arbitrary: s)
  case Nil
  then show ?case by simp
next
  case (Cons d ds)
  let ?s0 = "s\<lparr>dp := 0, angles := replicate i_count 0\<rparr>"
  have wf0: "wf_state kinds i_count ?s0" using Cons.prems by (rule wf_reset)
  from sweep_total [OF assms(1) wf0 assms(3), of d]
  obtain s' where sw: "sweep solve vpoint_count i_count d ?s0 = Inr s'" by auto
  have "wf_state kinds i_count s'"
    using sweep_invariant [OF sw assms(3) wf0, of "\<lambda>_. True"] by simp
  from Cons.IH [OF this] sw show ?case by auto
qed

lemma wf_init: "wf_state (map vtype vps) i_count (init_work vps i_count)"
  by (simp add: wf_state_def init_work_def)

lemma trace_total:
  assumes "solver_ok (solver_of L r) (map vtype (vpoints_of L r))"
  shows "\<exists>t. trace_result L r = Inr t"
  unfolding trace_result_def Let_def
  by (rule for_intervals_total [OF assms wf_init]) simp

lemma trace_invariant:
  assumes "trace_result L r = Inr t"
    and "I (init_work (vpoints_of L r) (i_count_of (exprs_of L r)))"
    and "\<And>d s s'. wf_state (map vtype (vpoints_of L r)) (i_count_of (exprs_of L r)) s \<Longrightarrow> I s \<Longrightarrow>
           dp s < i_count_of (exprs_of L r) \<Longrightarrow>
           step (solver_of L r) (length (vpoints_of L r)) (interval_of d) s = Inr s' \<Longrightarrow> I s'"
    and "\<And>s. wf_state (map vtype (vpoints_of L r)) (i_count_of (exprs_of L r)) s \<Longrightarrow> I s \<Longrightarrow>
           I (s\<lparr>dp := 0, angles := replicate (i_count_of (exprs_of L r)) 0\<rparr>)"
  shows "wf_state (map vtype (vpoints_of L r)) (i_count_of (exprs_of L r)) t \<and> I t"
proof -
  have run: "for_intervals (solver_of L r) (length (vpoints_of L r)) (i_count_of (exprs_of L r))
          [Forward, Backward] (init_work (vpoints_of L r) (i_count_of (exprs_of L r))) = Inr t"
    using assms(1) by (simp add: trace_result_def Let_def)
  show ?thesis
    by (rule for_intervals_invariant [OF run _ wf_init, of I])
       (use assms(2-4) in simp_all)
qed

subsection \<open>The state after a pass\<close>

lemma fail_state_sel:
  "path (fail_state interval s) = map (\<lambda>p. p @ [NaN]) (path s)"
  "calls (fail_state interval s) = calls s @ [call_of s (Inl ValueError)]"
  "vpoints (fail_state interval s) = vpoints s"
  "angles (fail_state interval s) = (angles s)[dp s := angles s ! dp s - interval]"
  "angles_params (fail_state interval s) = angles_params s"
  "dp (fail_state interval s) = dp s + 1"
  by (simp_all add: fail_state_def)

lemma succ_state_sel:
  "path (succ_state interval sr s) =
     map (\<lambda>i. path s ! i @ [Pt (coord_of (sr ! i))]) [0..<length (path s)]"
  "calls (succ_state interval sr s) = calls s @ [call_of s (Inr sr)]"
  "vpoints (succ_state interval sr s) =
     map (\<lambda>i. move (vpoints s ! i) (sr ! i)) [0..<length (vpoints s)]"
  "angles_params (succ_state interval sr s) =
     (angles_params s)[dp s := angles_params s ! dp s + \<bar>interval\<bar>]"
  by (simp_all add: succ_state_def Let_def)

lemma succ_state_advance:
  assumes "dp s < length (angles_params s)" and "dp s < length (angles s)" and "angles_params s ! dp s + \<bar>interval\<bar> > 360"
  shows "dp (succ_state interval sr s) = dp s + 1"
    and "angles (succ_state interval sr s) =
           (angles s)[dp s := (angles s ! dp s + interval) mod 360 - interval]"
  using assms by (simp_all add: succ_state_def Let_def)

lemma succ_state_stay:
  assumes "dp s < length (angles_params s)" and "dp s < length (angles s)" and "\<not> angles_params s ! dp s + \<bar>interval\<bar> > 360"
  shows "dp (succ_state interval sr s) = dp s"
    and "angles (succ_state interval sr s) =
           (angles s)[dp s := (angles s ! dp s + interval) mod 360]"
  using assms by (simp_all add: succ_state_def Let_def)

subsection \<open>The paths follow the calls\<close>

lemma sample_of_call:
  "sample_of i (call_of s (Inl e)) = NaN"
  "sample_of i (call_of s (Inr sr)) = Pt (coord_of (sr ! i))"
  by (simp_all add: sample_of_def call_of_def)

lemma aligned_step:
  assumes "wf_state kinds i_count s" and "aligned s" and "dp s < i_count"
    and "step solve (length kinds) interval s = Inr s'"
  shows "aligned s'"
  using step_Inr_cases [OF assms(4,1,3)]
proof (elim disjE conjE exE)
  assume "s' = fail_state interval s"
  with assms(2) show ?thesis
    by (simp add: aligned_def fail_state_sel sample_of_call)
next
  fix sr assume "s' = succ_state interval sr s"
  with assms(2) show ?thesis
    by (simp add: aligned_def succ_state_sel sample_of_call)
qed

lemma aligned_init: "aligned (init_work vps i_count)"
  by (simp add: aligned_def init_work_def)

lemma aligned_reset: "aligned s \<Longrightarrow> aligned (s\<lparr>dp := 0, angles := a\<rparr>)"
  by (simp add: aligned_def)

lemma trace_aligned:
  assumes "trace_result L r = Inr t"
  shows "length (path t) = length (vpoints_of L r) \<and> aligned t"
proof -
  have "wf_state (map vtype (vpoints_of L r)) (i_count_of (exprs_of L r)) t \<and> aligned t"
    using assms
  proof (rule trace_invariant)
    show "aligned (init_work (vpoints_of L r) (i_count_of (exprs_of L r)))"
      by (rule aligned_init)
  next
    fix d s s'
    assume "wf_state (map vtype (vpoints_of L r)) (i_count_of (exprs_of L r)) s" "aligned s"
      "dp s < i_count_of (exprs_of L r)"
      "step (solver_of L r) (length (vpoints_of L r)) (interval_of d) s = Inr s'"
    then show "aligned s'"
      using aligned_step [of "map vtype (vpoints_of L r)" _ s "solver_of L r" "interval_of d" s']
      by simp
  next
    fix s assume "aligned s"
    then show "aligned (s\<lparr>dp := 0, angles := replicate (i_count_of (exprs_of L r)) 0\<rparr>)"
      by (rule aligned_reset)
  qed
  then show ?thesis by (simp add: wf_state_def)
qed

lemma init_work_sel:
  "path (init_work vps i_count) = replicate (length vps) []"
  "vpoints (init_work vps i_count) = vps"
  "angles (init_work vps i_count) = replicate i_count 0"
  "angles_params (init_work vps i_count) = replicate i_count 0"
  "dp (init_work vps i_count) = 0"
  "calls (init_work vps i_count) = []"
  by (simp_all add: init_work_def)

lemma step_other_angles:
  assumes "step solve vpoint_count interval s = Inr s'"
  shows "length (angles s') = length (angles s) \<and> (\<forall>i. i \<noteq> dp s \<longrightarrow> angles s' ! i = angles s ! i)"
  using assms
  by (auto simp: step_def Let_def split: sum.splits if_splits prod.splits)

lemma step_logs_vpoints:
  assumes "step solve vpoint_count interval s = Inr s'"
  shows "calls s' \<noteq> [] \<and> c_vpoints (last (calls s')) = vpoints s \<and>
         c_angles (last (calls s')) = angles s"
  using assms
  by (auto simp: step_def Let_def split: sum.splits if_splits prod.splits)

subsection \<open>The angles\<close>

lemma call_ok_call_of:
  assumes "angles_inv i_count s" and "dp s < i_count" and "length (angles s) = i_count"
  shows "call_ok i_count (call_of s outcome)"
  using assms by (simp add: angles_inv_def call_ok_def call_of_def)

lemma angles_inv_fail:
  assumes inv: "angles_inv i_count s" and run: "dp s < i_count"
    and len: "length (angles s) = i_count" and iv: "interval = 3 \<or> interval = - 3"
  shows "angles_inv i_count (fail_state interval s)"
proof -
  have c: "call_ok i_count (call_of s (Inl ValueError))"
    using inv run len by (rule call_ok_call_of)
  have a: "0 \<le> angles s ! dp s" "angles s ! dp s < 360"
    using inv run by (simp_all add: angles_inv_def)
  have z: "\<forall>i. dp s < i \<and> i < i_count \<longrightarrow> angles s ! i = 0"
    and b: "\<forall>i<i_count. - 3 \<le> angles s ! i \<and> angles s ! i < 363"
    and cs: "\<forall>c\<in>set (calls s). call_ok i_count c"
    using inv by (simp_all add: angles_inv_def)
  show ?thesis
    unfolding angles_inv_def fail_state_sel
  proof (intro conjI allI impI ballI)
    show "dp s + 1 \<le> i_count" using run by simp
  next
    fix i assume "dp s + 1 < i \<and> i < i_count"
    then show "(angles s)[dp s := angles s ! dp s - interval] ! i = 0"
      using z by simp
  next
    assume "dp s + 1 < i_count"
    then have "(angles s)[dp s := angles s ! dp s - interval] ! (dp s + 1) = 0"
      using z by simp
    then show "0 \<le> (angles s)[dp s := angles s ! dp s - interval] ! (dp s + 1)"
      and "(angles s)[dp s := angles s ! dp s - interval] ! (dp s + 1) < 360"
      by simp_all
  next
    fix i assume i: "i < i_count"
    show "- 3 \<le> (angles s)[dp s := angles s ! dp s - interval] ! i"
      using a b i iv len by (cases "i = dp s") auto
    show "(angles s)[dp s := angles s ! dp s - interval] ! i < 363"
      using a b i iv len by (cases "i = dp s") auto
  next
    fix c assume "c \<in> set (calls s @ [call_of s (Inl ValueError)])"
    then show "call_ok i_count c" using c cs by auto
  qed
qed

lemma angles_inv_succ:
  assumes inv: "angles_inv i_count s" and run: "dp s < i_count"
    and len: "length (angles s) = i_count" "length (angles_params s) = i_count"
    and iv: "interval = 3 \<or> interval = - 3"
  shows "angles_inv i_count (succ_state interval sr s)"
proof -
  have c: "call_ok i_count (call_of s (Inr sr))"
    using inv run len(1) by (rule call_ok_call_of)
  have z: "\<forall>i. dp s < i \<and> i < i_count \<longrightarrow> angles s ! i = 0"
    and b: "\<forall>i<i_count. - 3 \<le> angles s ! i \<and> angles s ! i < 363"
    and cs: "\<forall>c\<in>set (calls s). call_ok i_count c"
    using inv by (simp_all add: angles_inv_def)
  have m: "0 \<le> (angles s ! dp s + interval) mod 360" "(angles s ! dp s + interval) mod 360 < 360"
    by simp_all
  have cl: "\<forall>c\<in>set (calls (succ_state interval sr s)). call_ok i_count c"
    using c cs by (auto simp: succ_state_sel)
  show ?thesis
  proof (cases "angles_params s ! dp s + \<bar>interval\<bar> > 360")
    case True
    have d: "dp (succ_state interval sr s) = dp s + 1"
      and a: "angles (succ_state interval sr s) =
           (angles s)[dp s := (angles s ! dp s + interval) mod 360 - interval]"
      using succ_state_advance [of s interval sr] True run len by simp_all
    show ?thesis
      unfolding angles_inv_def d a
    proof (intro conjI allI impI ballI)
      show "dp s + 1 \<le> i_count" using run by simp
    next
      fix i assume "dp s + 1 < i \<and> i < i_count"
      then show "(angles s)[dp s := (angles s ! dp s + interval) mod 360 - interval] ! i = 0"
        using z by simp
    next
      assume "dp s + 1 < i_count"
      then have "(angles s)[dp s := (angles s ! dp s + interval) mod 360 - interval] ! (dp s + 1) = 0"
        using z by simp
      then show "0 \<le> (angles s)[dp s := (angles s ! dp s + interval) mod 360 - interval] ! (dp s + 1)"
        and "(angles s)[dp s := (angles s ! dp s + interval) mod 360 - interval] ! (dp s + 1) < 360"
        by simp_all
    next
      fix i assume i: "i < i_count"
      show "- 3 \<le> (angles s)[dp s := (angles s ! dp s + interval) mod 360 - interval] ! i"
        using m b i iv len by (cases "i = dp s") auto
      show "(angles s)[dp s := (angles s ! dp s + interval) mod 360 - interval] ! i < 363"
        using m b i iv len by (cases "i = dp s") auto
    next
      fix c assume "c \<in> set (calls (succ_state interval sr s))"
      then show "call_ok i_count c" using cl by simp
    qed
  next
    case False
    have d: "dp (succ_state interval sr s) = dp s"
      and a: "angles (succ_state interval sr s) =
           (angles s)[dp s := (angles s ! dp s + interval) mod 360]"
      using succ_state_stay [of s interval sr] False run len by simp_all
    show ?thesis
      unfolding angles_inv_def d a
    proof (intro conjI allI impI ballI)
      show "dp s \<le> i_count" using run by simp
    next
      fix i assume "dp s < i \<and> i < i_count"
      then show "(angles s)[dp s := (angles s ! dp s + interval) mod 360] ! i = 0"
        using z by simp
    next
      show "0 \<le> (angles s)[dp s := (angles s ! dp s + interval) mod 360] ! dp s"
        and "(angles s)[dp s := (angles s ! dp s + interval) mod 360] ! dp s < 360"
        using m run len by simp_all
    next
      fix i assume i: "i < i_count"
      show "- 3 \<le> (angles s)[dp s := (angles s ! dp s + interval) mod 360] ! i"
        using m b i len by (cases "i = dp s") auto
      show "(angles s)[dp s := (angles s ! dp s + interval) mod 360] ! i < 363"
        using m b i len by (cases "i = dp s") auto
    next
      fix c assume "c \<in> set (calls (succ_state interval sr s))"
      then show "call_ok i_count c" using cl by simp
    qed
  qed
qed

lemma interval_of_cases: "interval_of d = 3 \<or> interval_of d = - 3"
  by (cases d) simp_all

lemma angles_inv_step:
  assumes "wf_state kinds i_count s" and "angles_inv i_count s" and "dp s < i_count"
    and "step solve (length kinds) (interval_of d) s = Inr s'"
  shows "angles_inv i_count s'"
  using step_Inr_cases [OF assms(4,1,3)]
proof (elim disjE conjE exE)
  assume "s' = fail_state (interval_of d) s"
  then show ?thesis
    using angles_inv_fail [OF assms(2,3) wf_stateD(4) [OF assms(1)] interval_of_cases] by simp
next
  fix sr assume "s' = succ_state (interval_of d) sr s"
  then show ?thesis
    using angles_inv_succ [OF assms(2,3) wf_stateD(4,5) [OF assms(1)] interval_of_cases] by simp
qed

lemma angles_inv_reset:
  assumes "angles_inv i_count s"
  shows "angles_inv i_count (s\<lparr>dp := 0, angles := replicate i_count 0\<rparr>)"
  using assms by (simp add: angles_inv_def)

lemma angles_inv_init: "angles_inv i_count (init_work vps i_count)"
  by (simp add: angles_inv_def init_work_sel)

lemma trace_angles_inv:
  assumes "trace_result L r = Inr t"
  shows "angles_inv (i_count_of (exprs_of L r)) t"
proof -
  have "wf_state (map vtype (vpoints_of L r)) (i_count_of (exprs_of L r)) t \<and>
        angles_inv (i_count_of (exprs_of L r)) t"
    using assms
  proof (rule trace_invariant)
    show "angles_inv (i_count_of (exprs_of L r)) (init_work (vpoints_of L r) (i_count_of (exprs_of L r)))"
      by (rule angles_inv_init)
  next
    fix d s s'
    assume "wf_state (map vtype (vpoints_of L r)) (i_count_of (exprs_of L r)) s"
      "angles_inv (i_count_of (exprs_of L r)) s"
      "dp s < i_count_of (exprs_of L r)"
      "step (solver_of L r) (length (vpoints_of L r)) (interval_of d) s = Inr s'"
    then show "angles_inv (i_count_of (exprs_of L r)) s'"
      using angles_inv_step [of "map vtype (vpoints_of L r)" _ s "solver_of L r" d s']
      by simp
  next
    fix s assume "angles_inv (i_count_of (exprs_of L r)) s"
    then show "angles_inv (i_count_of (exprs_of L r))
                 (s\<lparr>dp := 0, angles := replicate (i_count_of (exprs_of L r)) 0\<rparr>)"
      by (rule angles_inv_reset)
  qed
  then show ?thesis by simp
qed

subsection \<open>The two sweeps of a trace\<close>

lemma trace_two_sweeps:
  assumes "trace_result L r = Inr t"
  shows "\<exists>s1. sweep (solver_of L r) (length (vpoints_of L r)) (i_count_of (exprs_of L r)) Forward
               (init_work (vpoints_of L r) (i_count_of (exprs_of L r))) = Inr s1 \<and>
              sweep (solver_of L r) (length (vpoints_of L r)) (i_count_of (exprs_of L r)) Backward
               (s1\<lparr>dp := 0, angles := replicate (i_count_of (exprs_of L r)) 0\<rparr>) = Inr t"
proof -
  have "init_work (vpoints_of L r) (i_count_of (exprs_of L r))
          \<lparr>dp := 0, angles := replicate (i_count_of (exprs_of L r)) 0\<rparr> =
        init_work (vpoints_of L r) (i_count_of (exprs_of L r))"
    by (simp add: init_work_def)
  with assms show ?thesis
    by (auto simp: trace_result_def Let_def split: sum.splits)
qed

lemma trace_final_dp:
  assumes "trace_result L r = Inr t"
  shows "dp t = i_count_of (exprs_of L r)"
proof -
  let ?ic = "i_count_of (exprs_of L r)" and ?ks = "map vtype (vpoints_of L r)"
  from trace_two_sweeps [OF assms] obtain s1
    where f: "sweep (solver_of L r) (length (vpoints_of L r)) ?ic Forward
               (init_work (vpoints_of L r) ?ic) = Inr s1"
      and b: "sweep (solver_of L r) (length (vpoints_of L r)) ?ic Backward
               (s1\<lparr>dp := 0, angles := replicate ?ic 0\<rparr>) = Inr t" by blast
  have "wf_state ?ks ?ic s1"
    using sweep_invariant [OF f _ wf_init, of "\<lambda>_. True"] by simp
  then have "wf_state ?ks ?ic (s1\<lparr>dp := 0, angles := replicate ?ic 0\<rparr>)"
    by (rule wf_reset)
  then have "?ic \<le> dp t"
    using sweep_invariant [OF b, of ?ks "\<lambda>_. True"] by simp
  moreover have "dp t \<le> ?ic"
    using trace_angles_inv [OF assms] by (simp add: angles_inv_def)
  ultimately show ?thesis by simp
qed

subsection \<open>The calls made for one driver\<close>

lemma step_summary:
  assumes st: "step solve (length kinds) (interval_of d) s = Inr s'"
    and wf: "wf_state kinds i_count s" and run: "dp s < i_count"
  shows "\<exists>c0. calls s' = calls s @ [c0] \<and> c_dp c0 = dp s \<and>
           c_outcome c0 = solve (vpoints s) (angles s) \<and>
           c_vpoints c0 = vpoints s \<and> c_angles c0 = angles s \<and>
           ((failed c0 \<and> dp s' = dp s + 1 \<and> angles_params s' = angles_params s) \<or>
            (\<not> failed c0 \<and>
             angles_params s' = (angles_params s)[dp s := angles_params s ! dp s + 3] \<and>
             dp s' = (if angles_params s ! dp s + 3 > 360 then dp s + 1 else dp s)))"
  using step_Inr_cases [OF st wf run]
proof (elim disjE conjE exE)
  assume f: "solve (vpoints s) (angles s) = Inl ValueError" "s' = fail_state (interval_of d) s"
  show ?thesis
  proof (intro exI [of _ "call_of s (Inl ValueError)"] conjI disjI1)
    show "calls s' = calls s @ [call_of s (Inl ValueError)]" using f by (simp add: fail_state_sel)
    show "c_dp (call_of s (Inl ValueError)) = dp s" by (simp add: call_of_def)
    show "c_outcome (call_of s (Inl ValueError)) = solve (vpoints s) (angles s)"
      using f by (simp add: call_of_def)
    show "c_vpoints (call_of s (Inl ValueError)) = vpoints s" by (simp add: call_of_def)
    show "c_angles (call_of s (Inl ValueError)) = angles s" by (simp add: call_of_def)
    show "failed (call_of s (Inl ValueError))" by (simp add: failed_def call_of_def)
    show "dp s' = dp s + 1" using f by (simp add: fail_state_sel)
    show "angles_params s' = angles_params s" using f by (simp add: fail_state_sel)
  qed
next
  fix sr
  assume f: "solve (vpoints s) (angles s) = Inr sr" "s' = succ_state (interval_of d) sr s"
  have abs3: "\<bar>interval_of d\<bar> = 3" by (cases d) simp_all
  have len: "dp s < length (angles_params s)" "dp s < length (angles s)"
    using wf run by (simp_all add: wf_state_def)
  show ?thesis
  proof (intro exI [of _ "call_of s (Inr sr)"] conjI disjI2)
    show "calls s' = calls s @ [call_of s (Inr sr)]" using f by (simp add: succ_state_sel)
    show "c_dp (call_of s (Inr sr)) = dp s" by (simp add: call_of_def)
    show "c_outcome (call_of s (Inr sr)) = solve (vpoints s) (angles s)"
      using f by (simp add: call_of_def)
    show "c_vpoints (call_of s (Inr sr)) = vpoints s" by (simp add: call_of_def)
    show "c_angles (call_of s (Inr sr)) = angles s" by (simp add: call_of_def)
    show "\<not> failed (call_of s (Inr sr))" by (simp add: failed_def call_of_def)
    show "angles_params s' = (angles_params s)[dp s := angles_params s ! dp s + 3]"
      using f abs3 by (simp add: succ_state_sel)
    show "dp s' = (if angles_params s ! dp s + 3 > 360 then dp s + 1 else dp s)"
      using f abs3 len succ_state_advance(1) [of s "interval_of d" sr]
        succ_state_stay(1) [of s "interval_of d" sr] by simp
  qed
qed

text \<open>
  The calls that a sweep adds: none is for a driver that the pointer has passed, every
  driver from the pointer on gets at least one, and a driver whose calls all succeed
  gets \<open>(360 - c) div 3 + 1\<close> of them, \<open>c\<close> being its cumulative angle at the start.
\<close>

lemma sweep_new_calls:
  assumes "sweep solve vpoint_count i_count d s = Inr t"
    and "vpoint_count = length kinds" and "wf_state kinds i_count s"
  shows "\<exists>new. calls t = calls s @ new \<and> (\<forall>c\<in>set new. dp s \<le> c_dp c) \<and>
           (\<forall>j. dp s \<le> j \<and> j < i_count \<longrightarrow>
              calls_for j new \<noteq> [] \<and>
              ((\<forall>c\<in>set (calls_for j new). \<not> failed c) \<longrightarrow>
                 length (calls_for j new) = nat ((360 - angles_params s ! j) div 3) + 1))"
  using assms
proof (induction solve vpoint_count i_count d s rule: sweep.induct)
  case (1 solve vpoint_count i_count d s)
  show ?case
  proof (cases "dp s < i_count")
    case False
    with "1.prems"(1) have "t = s" by (simp add: sweep.simps)
    with False show ?thesis by auto
  next
    case True
    with "1.prems"(1) obtain s' where st: "step solve vpoint_count (interval_of d) s = Inr s'"
      and rest: "sweep solve vpoint_count i_count d s' = Inr t"
      by (auto simp: sweep.simps [of solve vpoint_count i_count d s] split: sum.splits)
    from st "1.prems"(2) have st': "step solve (length kinds) (interval_of d) s = Inr s'" by simp
    have wf': "wf_state kinds i_count s'"
      using step_wf [OF st' "1.prems"(3) True] .
    from "1.IH" [OF True st rest "1.prems"(2) wf'] obtain new'
      where n1: "calls t = calls s' @ new'" and n2: "\<forall>c\<in>set new'. dp s' \<le> c_dp c"
        and n3: "\<forall>j. dp s' \<le> j \<and> j < i_count \<longrightarrow>
              calls_for j new' \<noteq> [] \<and>
              ((\<forall>c\<in>set (calls_for j new'). \<not> failed c) \<longrightarrow>
                 length (calls_for j new') = nat ((360 - angles_params s' ! j) div 3) + 1)"
      by blast
    from step_summary [OF st' "1.prems"(3) True] obtain c0
      where c1: "calls s' = calls s @ [c0]" and c2: "c_dp c0 = dp s"
        and c3: "(failed c0 \<and> dp s' = dp s + 1 \<and> angles_params s' = angles_params s) \<or>
            (\<not> failed c0 \<and>
             angles_params s' = (angles_params s)[dp s := angles_params s ! dp s + 3] \<and>
             dp s' = (if angles_params s ! dp s + 3 > 360 then dp s + 1 else dp s))"
      by blast
    have mono: "dp s \<le> dp s'" using c3 by (auto split: if_splits)
    have len: "dp s < length (angles_params s)"
      using "1.prems"(3) True by (simp add: wf_state_def)
    have a: "calls t = calls s @ (c0 # new')" using n1 c1 by simp
    have b: "\<forall>c\<in>set (c0 # new'). dp s \<le> c_dp c"
      using n2 c2 mono by auto
    have c: "calls_for j (c0 # new') \<noteq> [] \<and>
              ((\<forall>c\<in>set (calls_for j (c0 # new')). \<not> failed c) \<longrightarrow>
                 length (calls_for j (c0 # new')) = nat ((360 - angles_params s ! j) div 3) + 1)"
      if j: "dp s \<le> j \<and> j < i_count" for j
    proof (cases "j = dp s")
      case False
      with j have lt: "dp s < j" by simp
      then have "dp s' \<le> j" using c3 by (auto split: if_splits)
      moreover have "angles_params s' ! j = angles_params s ! j"
        using c3 lt by auto
      moreover have "calls_for j (c0 # new') = calls_for j new'"
        using c2 lt by (simp add: calls_for_def)
      ultimately show ?thesis using n3 j by simp
    next
      case eq: True
      have cons: "calls_for j (c0 # new') = c0 # calls_for j new'"
        using c2 eq by (simp add: calls_for_def)
      have "length (calls_for j (c0 # new')) = nat ((360 - angles_params s ! j) div 3) + 1"
        if nf: "\<forall>c\<in>set (calls_for j (c0 # new')). \<not> failed c"
      proof -
        from nf cons have ok0: "\<not> failed c0" and ok': "\<forall>c\<in>set (calls_for j new'). \<not> failed c"
          by simp_all
        from ok0 c3 have ap: "angles_params s' = (angles_params s)[dp s := angles_params s ! dp s + 3]"
          and d': "dp s' = (if angles_params s ! dp s + 3 > 360 then dp s + 1 else dp s)"
          by simp_all
        show ?thesis
        proof (cases "angles_params s ! dp s + 3 > 360")
          case True
          with d' have "dp s' = j + 1" using eq by simp
          with n2 have "calls_for j new' = []"
            by (auto simp: calls_for_def filter_empty_conv)
          moreover have "nat ((360 - angles_params s ! j) div 3) = 0"
            using True eq by simp
          ultimately show ?thesis using cons by simp
        next
          case False
          with d' have "dp s' \<le> j \<and> j < i_count" using eq j by simp
          with n3 ok' have "length (calls_for j new') = nat ((360 - angles_params s' ! j) div 3) + 1"
            by blast
          moreover have "angles_params s' ! j = angles_params s ! j + 3"
            using ap eq len by simp
          moreover have "nat ((360 - (angles_params s ! j + 3)) div 3) + 1 =
                         nat ((360 - angles_params s ! j) div 3)"
            using False eq by simp
          ultimately show ?thesis using cons by simp
        qed
      qed
      with cons show ?thesis by simp
    qed
    from a b c show ?thesis by blast
  qed
qed

lemma logged_step:
  assumes "wf_state kinds i_count s" and "logged solve kinds s" and "dp s < i_count"
    and "step solve (length kinds) (interval_of d) s = Inr s'"
  shows "logged solve kinds s'"
proof -
  from step_summary [OF assms(4,1,3)] obtain c0
    where "calls s' = calls s @ [c0]" "c_outcome c0 = solve (vpoints s) (angles s)"
      "c_vpoints c0 = vpoints s" "c_angles c0 = angles s" by blast
  with assms(1,2) show ?thesis by (auto simp: logged_def wf_state_def)
qed

lemma sweep_aligned_logged:
  assumes "sweep solve (length kinds) i_count d s = Inr t"
    and "wf_state kinds i_count s" and "aligned s" and "logged solve kinds s"
  shows "wf_state kinds i_count t \<and> aligned t \<and> logged solve kinds t \<and> i_count \<le> dp t"
proof -
  have "wf_state kinds i_count t \<and> (aligned t \<and> logged solve kinds t) \<and> i_count \<le> dp t"
    using assms(1) _ assms(2)
  proof (rule sweep_invariant)
    show "length kinds = length kinds" by simp
    show "aligned s \<and> logged solve kinds s" using assms(3,4) by simp
  next
    fix s s'
    assume "wf_state kinds i_count s" "aligned s \<and> logged solve kinds s" "dp s < i_count"
      "step solve (length kinds) (interval_of d) s = Inr s'"
    then show "aligned s' \<and> logged solve kinds s'"
      using aligned_step [of kinds i_count s solve "interval_of d" s']
        logged_step [of kinds i_count s solve d s'] by simp
  qed
  then show ?thesis by simp
qed

lemma succeeds_not_failed:
  assumes "solver_succeeds_always solve kinds" and "logged solve kinds s"
  shows "\<forall>c\<in>set (calls s). \<not> failed c"
proof
  fix c assume "c \<in> set (calls s)"
  with assms(2) have o: "c_outcome c = solve (c_vpoints c) (c_angles c)"
    and k: "map vtype (c_vpoints c) = kinds" by (simp_all add: logged_def)
  from assms(1) k obtain sr where "solve (c_vpoints c) (c_angles c) = Inr sr"
    by (auto simp: solver_succeeds_always_def)
  with o show "\<not> failed c" by (simp add: failed_def)
qed

lemma succeeds_always_ok:
  assumes "solver_succeeds_always solve kinds"
  shows "solver_ok solve kinds"
  unfolding solver_ok_def
proof (intro allI impI)
  fix vps :: "vpoint list" and a :: "int list" assume "map vtype vps = kinds"
  with assms obtain sr where "solve vps a = Inr sr" "frame_ok vps sr"
    by (auto simp: solver_succeeds_always_def)
  then show "case solve vps a of Inl e \<Rightarrow> e = ValueError | Inr sr \<Rightarrow> frame_ok vps sr"
    by simp
qed

lemma new_samples:
  assumes "aligned s" and "aligned t" and "calls t = calls s @ new"
    and "length (path s) = n" and "length (path t) = n" and "i < n"
  shows "path t ! i = path s ! i @ map (sample_of i) new"
  using assms by (simp add: aligned_def)

lemma logged_init: "logged solve kinds (init_work vps i_count)"
  by (simp add: logged_def init_work_sel)

lemma sample_of_not_failed: "\<not> failed c \<Longrightarrow> sample_of i c \<noteq> NaN"
  by (cases "c_outcome c") (simp_all add: sample_of_def failed_def)

subsection \<open>A revolution without failure\<close>

text \<open>
  With a solver that always succeeds, the loop stays with the active driver for
  \<open>n + 1\<close> passes, \<open>n = (360 - c) div 3\<close>, calling the solver at the angles
  \<open>(a + interval * k) mod 360\<close> for \<open>k = 0, ..., n\<close>, and then moves to the next driver,
  leaving the angle of the last advance less one interval.
\<close>

lemma run_driver:
  assumes ok: "solver_succeeds_always solve kinds"
    and n: "n = nat ((360 - angles_params s ! dp s) div 3)"
    and wf: "wf_state kinds i_count s" and run: "dp s < i_count"
    and a: "0 \<le> angles s ! dp s" "angles s ! dp s < 360"
  shows "\<exists>s'. sweep solve (length kinds) i_count d s = sweep solve (length kinds) i_count d s' \<and>
           wf_state kinds i_count s' \<and> dp s' = dp s + 1 \<and>
           angles s' = (angles s)[dp s := (angles s ! dp s + interval_of d * (int n + 1)) mod 360
                                          - interval_of d] \<and>
           angles_params s' = (angles_params s)[dp s := angles_params s ! dp s + 3 * (int n + 1)] \<and>
           map (\<lambda>c. (c_dp c, c_angles c)) (calls s') =
             map (\<lambda>c. (c_dp c, c_angles c)) (calls s) @
             map (\<lambda>k. (dp s, (angles s)[dp s := (angles s ! dp s + interval_of d * int k) mod 360]))
               [0..<n + 1]"
  using n wf run a
proof (induction n arbitrary: s)
  case 0
  let ?iv = "interval_of d"
  have abs3: "\<bar>?iv\<bar> = 3" by (cases d) simp_all
  have len: "dp s < length (angles s)" "dp s < length (angles_params s)"
    using "0.prems"(2,3) by (simp_all add: wf_state_def)
  from ok wf_stateD(3) [OF "0.prems"(2)] obtain sr
    where sr: "solve (vpoints s) (angles s) = Inr sr" "frame_ok (vpoints s) sr"
    by (auto simp: solver_succeeds_always_def)
  let ?s1 = "succ_state ?iv sr s"
  have st: "step solve (length kinds) ?iv s = Inr ?s1"
    using sr len wf_stateD(1,2) [OF "0.prems"(2)] by (intro step_succ) simp_all
  have sw: "sweep solve (length kinds) i_count d s = sweep solve (length kinds) i_count d ?s1"
    using st "0.prems"(3) by (simp add: sweep.simps [of solve "length kinds" i_count d s])
  have over: "angles_params s ! dp s + \<bar>?iv\<bar> > 360"
    using "0.prems"(1) abs3 by simp
  have d1: "dp ?s1 = dp s + 1"
    and a1: "angles ?s1 = (angles s)[dp s := (angles s ! dp s + ?iv) mod 360 - ?iv]"
    using succ_state_advance [OF len(2,1) over] by simp_all
  have p1: "angles_params ?s1 = (angles_params s)[dp s := angles_params s ! dp s + 3]"
    using abs3 by (simp add: succ_state_sel)
  have same: "(angles s)[dp s := (angles s ! dp s) mod 360] = angles s"
    using "0.prems"(4,5) by simp
  have c1: "map (\<lambda>c. (c_dp c, c_angles c)) (calls ?s1) =
             map (\<lambda>c. (c_dp c, c_angles c)) (calls s) @
             map (\<lambda>k. (dp s, (angles s)[dp s := (angles s ! dp s + ?iv * int k) mod 360])) [0..<0 + 1]"
    using same by (simp add: succ_state_sel call_of_def)
  have "wf_state kinds i_count ?s1" using "0.prems"(2) by (rule wf_succ_state)
  with sw d1 a1 p1 c1 show ?case
    by (intro exI [of _ ?s1]) simp
next
  case (Suc m)
  let ?iv = "interval_of d"
  have abs3: "\<bar>?iv\<bar> = 3" by (cases d) simp_all
  have len: "dp s < length (angles s)" "dp s < length (angles_params s)"
    using Suc.prems(2,3) by (simp_all add: wf_state_def)
  from ok wf_stateD(3) [OF Suc.prems(2)] obtain sr
    where sr: "solve (vpoints s) (angles s) = Inr sr" "frame_ok (vpoints s) sr"
    by (auto simp: solver_succeeds_always_def)
  let ?s1 = "succ_state ?iv sr s"
  have st: "step solve (length kinds) ?iv s = Inr ?s1"
    using sr len wf_stateD(1,2) [OF Suc.prems(2)] by (intro step_succ) simp_all
  have sw: "sweep solve (length kinds) i_count d s = sweep solve (length kinds) i_count d ?s1"
    using st Suc.prems(3) by (simp add: sweep.simps [of solve "length kinds" i_count d s])
  have under: "\<not> angles_params s ! dp s + \<bar>?iv\<bar> > 360"
    using Suc.prems(1) abs3 by simp
  have d1: "dp ?s1 = dp s"
    and a1: "angles ?s1 = (angles s)[dp s := (angles s ! dp s + ?iv) mod 360]"
    using succ_state_stay [OF len(2,1) under] by simp_all
  have p1: "angles_params ?s1 = (angles_params s)[dp s := angles_params s ! dp s + 3]"
    using abs3 by (simp add: succ_state_sel)
  have wf1: "wf_state kinds i_count ?s1" using Suc.prems(2) by (rule wf_succ_state)
  have m: "m = nat ((360 - angles_params ?s1 ! dp ?s1) div 3)"
    using Suc.prems(1) d1 p1 len by simp
  have r1: "dp ?s1 < i_count" using d1 Suc.prems(3) by simp
  have b1: "0 \<le> angles ?s1 ! dp ?s1" "angles ?s1 ! dp ?s1 < 360"
    using d1 a1 len by simp_all
  from Suc.IH [OF m wf1 r1 b1] obtain s'
    where sw': "sweep solve (length kinds) i_count d ?s1 = sweep solve (length kinds) i_count d s'"
      and wf': "wf_state kinds i_count s'" and d': "dp s' = dp ?s1 + 1"
      and a': "angles s' = (angles ?s1)[dp ?s1 := (angles ?s1 ! dp ?s1 + ?iv * (int m + 1)) mod 360 - ?iv]"
      and p': "angles_params s' = (angles_params ?s1)[dp ?s1 := angles_params ?s1 ! dp ?s1 + 3 * (int m + 1)]"
      and c': "map (\<lambda>c. (c_dp c, c_angles c)) (calls s') =
             map (\<lambda>c. (c_dp c, c_angles c)) (calls ?s1) @
             map (\<lambda>k. (dp ?s1, (angles ?s1)[dp ?s1 := (angles ?s1 ! dp ?s1 + ?iv * int k) mod 360]))
               [0..<m + 1]"
    by blast
  have modstep: "((angles s ! dp s + ?iv) mod 360 + ?iv * k) mod 360 =
                 (angles s ! dp s + ?iv * (k + 1)) mod 360" for k
  proof -
    have "((angles s ! dp s + ?iv) mod 360 + ?iv * k) mod 360 =
          ((angles s ! dp s + ?iv) + ?iv * k) mod 360"
      by (rule mod_add_left_eq)
    also have "(angles s ! dp s + ?iv) + ?iv * k = angles s ! dp s + ?iv * (k + 1)"
      by (simp add: algebra_simps)
    finally show ?thesis .
  qed
  have a2: "angles s' = (angles s)[dp s := (angles s ! dp s + ?iv * (int (Suc m) + 1)) mod 360 - ?iv]"
    using a' d1 a1 len modstep [of "int m + 1"] by (simp add: algebra_simps)
  have p2: "angles_params s' = (angles_params s)[dp s := angles_params s ! dp s + 3 * (int (Suc m) + 1)]"
    using p' d1 p1 len by (simp add: algebra_simps)
  define f where "f = (\<lambda>k. (dp s, (angles s)[dp s := (angles s ! dp s + ?iv * int k) mod 360]))"
  define g where "g = (\<lambda>k. (dp ?s1, (angles ?s1)[dp ?s1 := (angles ?s1 ! dp ?s1 + ?iv * int k) mod 360]))"
  have f0: "f 0 = (dp s, angles s)"
    using Suc.prems(4,5) by (simp add: f_def)
  have gf: "g k = f (Suc k)" for k
    using d1 a1 len modstep [of "int k"] by (simp add: f_def g_def algebra_simps)
  have c2: "map (\<lambda>c. (c_dp c, c_angles c)) (calls s') =
             map (\<lambda>c. (c_dp c, c_angles c)) (calls s) @ map f [0..<Suc m + 1]"
  proof -
    have "map f [0..<Suc m + 1] = f 0 # map (\<lambda>k. f (Suc k)) [0..<m + 1]"
      by (simp add: map_upt_Suc del: upt_Suc)
    also have "map (\<lambda>k. f (Suc k)) [0..<m + 1] = map g [0..<m + 1]"
      using gf by simp
    finally have "map f [0..<Suc m + 1] = (dp s, angles s) # map g [0..<m + 1]"
      using f0 by simp
    moreover have "map (\<lambda>c. (c_dp c, c_angles c)) (calls ?s1) =
            map (\<lambda>c. (c_dp c, c_angles c)) (calls s) @ [(dp s, angles s)]"
      by (simp add: succ_state_sel call_of_def)
    moreover have "map (\<lambda>c. (c_dp c, c_angles c)) (calls s') =
             map (\<lambda>c. (c_dp c, c_angles c)) (calls ?s1) @ map g [0..<m + 1]"
      using c' by (simp only: g_def)
    ultimately show ?thesis by simp
  qed
  have d2: "dp s' = dp s + 1" using d' d1 by simp
  show ?case
  proof (intro exI [of _ s'] conjI)
    show "sweep solve (length kinds) i_count d s = sweep solve (length kinds) i_count d s'"
      using sw sw' by simp
    show "wf_state kinds i_count s'" by (rule wf')
    show "dp s' = dp s + 1" by (rule d2)
    show "angles s' = (angles s)[dp s := (angles s ! dp s + ?iv * (int (Suc m) + 1)) mod 360 - ?iv]"
      by (rule a2)
    show "angles_params s' = (angles_params s)[dp s := angles_params s ! dp s + 3 * (int (Suc m) + 1)]"
      by (rule p2)
    show "map (\<lambda>c. (c_dp c, c_angles c)) (calls s') =
             map (\<lambda>c. (c_dp c, c_angles c)) (calls s) @
             map (\<lambda>k. (dp s, (angles s)[dp s := (angles s ! dp s + ?iv * int k) mod 360]))
               [0..<Suc m + 1]"
      using c2 by (simp only: f_def)
  qed
qed

lemma trace_logged:
  assumes "trace_result L r = Inr t"
  shows "logged (solver_of L r) (map vtype (vpoints_of L r)) t"
proof -
  have "wf_state (map vtype (vpoints_of L r)) (i_count_of (exprs_of L r)) t \<and>
        logged (solver_of L r) (map vtype (vpoints_of L r)) t"
    using assms
  proof (rule trace_invariant)
    show "logged (solver_of L r) (map vtype (vpoints_of L r))
            (init_work (vpoints_of L r) (i_count_of (exprs_of L r)))"
      by (rule logged_init)
  next
    fix d s s'
    assume "wf_state (map vtype (vpoints_of L r)) (i_count_of (exprs_of L r)) s"
      "logged (solver_of L r) (map vtype (vpoints_of L r)) s"
      "dp s < i_count_of (exprs_of L r)"
      "step (solver_of L r) (length (vpoints_of L r)) (interval_of d) s = Inr s'"
    then show "logged (solver_of L r) (map vtype (vpoints_of L r)) s'"
      using logged_step [of "map vtype (vpoints_of L r)" _ s "solver_of L r" d s'] by simp
  next
    fix s assume "logged (solver_of L r) (map vtype (vpoints_of L r)) s"
    then show "logged (solver_of L r) (map vtype (vpoints_of L r))
                 (s\<lparr>dp := 0, angles := replicate (i_count_of (exprs_of L r)) 0\<rparr>)"
      by (simp add: logged_def)
  qed
  then show ?thesis by simp
qed

lemma sweep_done: "i_count \<le> dp s \<Longrightarrow> sweep solve vpoint_count i_count d s = Inr s"
  by (simp add: sweep.simps)

text \<open>
  Two drivers and a solver that always succeeds: the calls of the whole trace (driver
  pointer and angles of each), in their order.
\<close>

lemma two_driver_calls:
  assumes ok: "solver_succeeds_always solve (map vtype vps)"
  shows "\<exists>t. for_intervals solve (length vps) 2 [Forward, Backward] (init_work vps 2) = Inr t \<and>
           map (\<lambda>c. (c_dp c, c_angles c)) (calls t) =
             map (\<lambda>k. (0, [(3 * int k) mod 360, 0])) [0..<121] @
             map (\<lambda>k. (1, [0, (3 * int k) mod 360])) [0..<121] @
             [(0, [0, 0]), (1, [360, 0])]"
proof -
  let ?ks = "map vtype vps"
  let ?s0 = "init_work vps 2"
  have lk: "length ?ks = length vps" by simp
  have wf0: "wf_state ?ks 2 ?s0" by (rule wf_init)
  have s0: "dp ?s0 = 0" "angles ?s0 = [0, 0]" "angles_params ?s0 = [0, 0]" "calls ?s0 = []"
    by (simp_all add: init_work_sel numeral_2_eq_2)
  \<comment> \<open>forward, driver 0\<close>
  have "\<exists>s'. sweep solve (length ?ks) 2 Forward ?s0 = sweep solve (length ?ks) 2 Forward s' \<and>
           wf_state ?ks 2 s' \<and> dp s' = dp ?s0 + 1 \<and>
           angles s' = (angles ?s0)[dp ?s0 := (angles ?s0 ! dp ?s0 + interval_of Forward * (int 120 + 1)) mod 360
                                          - interval_of Forward] \<and>
           angles_params s' = (angles_params ?s0)[dp ?s0 := angles_params ?s0 ! dp ?s0 + 3 * (int 120 + 1)] \<and>
           map (\<lambda>c. (c_dp c, c_angles c)) (calls s') =
             map (\<lambda>c. (c_dp c, c_angles c)) (calls ?s0) @
             map (\<lambda>k. (dp ?s0, (angles ?s0)[dp ?s0 := (angles ?s0 ! dp ?s0 + interval_of Forward * int k) mod 360]))
               [0..<120 + 1]"
    by (rule run_driver [OF ok _ wf0]) (simp_all add: s0)
  then obtain s1 where f1: "sweep solve (length vps) 2 Forward ?s0 = sweep solve (length vps) 2 Forward s1"
    and wf1: "wf_state ?ks 2 s1" and d1: "dp s1 = 1"
    and a1: "angles s1 = [0, 0]" and p1: "angles_params s1 = [363, 0]"
    and c1: "map (\<lambda>c. (c_dp c, c_angles c)) (calls s1) =
               map (\<lambda>k. (0, [(3 * int k) mod 360, 0])) [0..<121]"
    by (auto simp: s0)
  \<comment> \<open>forward, driver 1\<close>
  have "\<exists>s'. sweep solve (length ?ks) 2 Forward s1 = sweep solve (length ?ks) 2 Forward s' \<and>
           wf_state ?ks 2 s' \<and> dp s' = dp s1 + 1 \<and>
           angles s' = (angles s1)[dp s1 := (angles s1 ! dp s1 + interval_of Forward * (int 120 + 1)) mod 360
                                          - interval_of Forward] \<and>
           angles_params s' = (angles_params s1)[dp s1 := angles_params s1 ! dp s1 + 3 * (int 120 + 1)] \<and>
           map (\<lambda>c. (c_dp c, c_angles c)) (calls s') =
             map (\<lambda>c. (c_dp c, c_angles c)) (calls s1) @
             map (\<lambda>k. (dp s1, (angles s1)[dp s1 := (angles s1 ! dp s1 + interval_of Forward * int k) mod 360]))
               [0..<120 + 1]"
    by (rule run_driver [OF ok _ wf1]) (simp_all add: d1 a1 p1)
  then obtain s2 where f2: "sweep solve (length vps) 2 Forward s1 = sweep solve (length vps) 2 Forward s2"
    and wf2: "wf_state ?ks 2 s2" and d2: "dp s2 = 2"
    and p2: "angles_params s2 = [363, 363]"
    and c2: "map (\<lambda>c. (c_dp c, c_angles c)) (calls s2) =
               map (\<lambda>k. (0, [(3 * int k) mod 360, 0])) [0..<121] @
               map (\<lambda>k. (1, [0, (3 * int k) mod 360])) [0..<121]"
    by (auto simp: d1 a1 p1 c1)
  have fw: "sweep solve (length vps) 2 Forward ?s0 = Inr s2"
    using f1 f2 d2 by (simp add: sweep_done)
  \<comment> \<open>backward, driver 0\<close>
  let ?r2 = "s2\<lparr>dp := 0, angles := replicate 2 0\<rparr>"
  have wfr: "wf_state ?ks 2 ?r2" using wf2 by (rule wf_reset)
  have r2: "dp ?r2 = 0" "angles ?r2 = [0, 0]" "angles_params ?r2 = [363, 363]"
    "calls ?r2 = calls s2"
    by (simp_all add: p2 numeral_2_eq_2)
  have "\<exists>s'. sweep solve (length ?ks) 2 Backward ?r2 = sweep solve (length ?ks) 2 Backward s' \<and>
           wf_state ?ks 2 s' \<and> dp s' = dp ?r2 + 1 \<and>
           angles s' = (angles ?r2)[dp ?r2 := (angles ?r2 ! dp ?r2 + interval_of Backward * (int 0 + 1)) mod 360
                                          - interval_of Backward] \<and>
           angles_params s' = (angles_params ?r2)[dp ?r2 := angles_params ?r2 ! dp ?r2 + 3 * (int 0 + 1)] \<and>
           map (\<lambda>c. (c_dp c, c_angles c)) (calls s') =
             map (\<lambda>c. (c_dp c, c_angles c)) (calls ?r2) @
             map (\<lambda>k. (dp ?r2, (angles ?r2)[dp ?r2 := (angles ?r2 ! dp ?r2 + interval_of Backward * int k) mod 360]))
               [0..<0 + 1]"
    by (rule run_driver [OF ok _ wfr]) (simp_all add: r2)
  then obtain s3 where f3: "sweep solve (length vps) 2 Backward ?r2 = sweep solve (length vps) 2 Backward s3"
    and wf3: "wf_state ?ks 2 s3" and d3: "dp s3 = 1"
    and a3: "angles s3 = [360, 0]" and p3: "angles_params s3 = [366, 363]"
    and c3: "map (\<lambda>c. (c_dp c, c_angles c)) (calls s3) =
               map (\<lambda>c. (c_dp c, c_angles c)) (calls s2) @ [(0, [0, 0])]"
    by (auto simp: r2)
  \<comment> \<open>backward, driver 1\<close>
  have "\<exists>s'. sweep solve (length ?ks) 2 Backward s3 = sweep solve (length ?ks) 2 Backward s' \<and>
           wf_state ?ks 2 s' \<and> dp s' = dp s3 + 1 \<and>
           angles s' = (angles s3)[dp s3 := (angles s3 ! dp s3 + interval_of Backward * (int 0 + 1)) mod 360
                                          - interval_of Backward] \<and>
           angles_params s' = (angles_params s3)[dp s3 := angles_params s3 ! dp s3 + 3 * (int 0 + 1)] \<and>
           map (\<lambda>c. (c_dp c, c_angles c)) (calls s') =
             map (\<lambda>c. (c_dp c, c_angles c)) (calls s3) @
             map (\<lambda>k. (dp s3, (angles s3)[dp s3 := (angles s3 ! dp s3 + interval_of Backward * int k) mod 360]))
               [0..<0 + 1]"
    by (rule run_driver [OF ok _ wf3]) (simp_all add: d3 a3 p3)
  then obtain s4 where f4: "sweep solve (length vps) 2 Backward s3 = sweep solve (length vps) 2 Backward s4"
    and d4: "dp s4 = 2"
    and c4: "map (\<lambda>c. (c_dp c, c_angles c)) (calls s4) =
               map (\<lambda>c. (c_dp c, c_angles c)) (calls s3) @ [(1, [360, 0])]"
    by (auto simp: d3 a3 p3)
  have bw: "sweep solve (length vps) 2 Backward ?r2 = Inr s4"
    using f3 f4 d4 by (simp add: sweep_done)
  have reset0: "?s0\<lparr>dp := 0, angles := replicate 2 0\<rparr> = ?s0"
    by (simp add: init_work_def)
  have "for_intervals solve (length vps) 2 [Forward, Backward] ?s0 = Inr s4"
    using fw bw by (simp add: reset0)
  moreover have "map (\<lambda>c. (c_dp c, c_angles c)) (calls s4) =
             map (\<lambda>k. (0, [(3 * int k) mod 360, 0])) [0..<121] @
             map (\<lambda>k. (1, [0, (3 * int k) mod 360])) [0..<121] @
             [(0, [0, 0]), (1, [360, 0])]"
    using c4 c3 c2 by simp
  ultimately show ?thesis by blast
qed

lemma trace_covers_drivers:
  assumes "trace_result L r = Inr t" and "j < i_count_of (exprs_of L r)"
  shows "calls_for j (calls t) \<noteq> []"
proof -
  let ?ic = "i_count_of (exprs_of L r)" and ?ks = "map vtype (vpoints_of L r)"
  let ?s0 = "init_work (vpoints_of L r) ?ic"
  from trace_two_sweeps [OF assms(1)] obtain s1
    where f: "sweep (solver_of L r) (length (vpoints_of L r)) ?ic Forward ?s0 = Inr s1"
      and b: "sweep (solver_of L r) (length (vpoints_of L r)) ?ic Backward
               (s1\<lparr>dp := 0, angles := replicate ?ic 0\<rparr>) = Inr t" by blast
  have wf1: "wf_state ?ks ?ic s1"
    using sweep_invariant [OF f _ wf_init, of "\<lambda>_. True"] by simp
  from sweep_new_calls [OF f _ wf_init] obtain new
    where n: "calls s1 = calls ?s0 @ new"
      and c: "\<forall>j. dp ?s0 \<le> j \<and> j < ?ic \<longrightarrow> calls_for j new \<noteq> [] \<and>
              ((\<forall>c\<in>set (calls_for j new). \<not> failed c) \<longrightarrow>
                 length (calls_for j new) = nat ((360 - angles_params ?s0 ! j) div 3) + 1)"
    by auto
  from c assms(2) have "calls_for j new \<noteq> []" by (simp add: init_work_sel)
  with n have 1: "calls_for j (calls s1) \<noteq> []" by (simp add: calls_for_def)
  from sweep_new_calls [OF b _ wf_reset [OF wf1]] obtain new2
    where "calls t = calls (s1\<lparr>dp := 0, angles := replicate ?ic 0\<rparr>) @ new2" by auto
  with 1 show ?thesis by (simp add: calls_for_def)
qed

subsection \<open>The example inputs\<close>

text \<open>
  The example inputs evaluated: the expressions parse as expected, the example solvers
  meet their contracts, and the traces that need only a few passes are computed.
\<close>


lemma demo_solver_ok: "solver_ok (\<lambda>vps a. Inr (demo_frame vps)) kinds"
proof -
  have "frame_ok vps (demo_frame vps)" for vps
    by (simp add: frame_ok_def demo_frame_def)
  then show ?thesis by (simp add: solver_ok_def)
qed

lemma demo_solver_of: "solver_of (demo_libs solver_succeeds) r = (\<lambda>vps a. Inr (demo_frame vps))"
  by (simp add: solver_of_def demo_libs_def solver_succeeds_def fun_eq_iff)

lemma demo_exprs_2:
  "i_count_of (exprs_of (demo_libs sv) (demo_result two_drivers)) = 2"
  by (simp add: i_count_of_def exprs_of_def demo_libs_def demo_result_def parse_exprs_def two_drivers_def)

lemma demo_exprs_0:
  "i_count_of (exprs_of (demo_libs sv) (demo_result [])) = 0"
  by (simp add: i_count_of_def exprs_of_def demo_libs_def demo_result_def parse_exprs_def two_drivers_def)

lemma demo_vpoints_of: "vpoints_of (demo_libs sv) r = demo_vpoints"
  by (simp add: vpoints_of_def demo_libs_def)

lemma demo_solver_of_fails: "solver_of (demo_libs solver_fails) r = (\<lambda>vps a. Inl ValueError)"
  by (simp add: solver_of_def demo_libs_def solver_fails_def fun_eq_iff)

lemma demo_fail_trace:
  "trace_result (demo_libs solver_fails) (demo_result two_drivers) = Inr demo_fail_final"
  by (simp add: trace_result_def demo_vpoints_of demo_exprs_2 demo_solver_of_fails
      sweep.simps step_def init_work_def Let_def demo_vpoints_def demo_fail_final_def
      numeral_2_eq_2 upt_rec)

lemma demo_empty_trace:
  "trace_result (demo_libs sv) (demo_result []) = Inr (init_work demo_vpoints 0)"
  by (simp add: trace_result_def demo_vpoints_of demo_exprs_0 sweep.simps init_work_def)


lemma demo_exprs_empty: "exprs_of (demo_libs sv) (demo_result []) = [([], [[]], [])]"
  by (simp add: exprs_of_def demo_libs_def demo_result_def parse_exprs_def)

lemma demo_step_fail:
  "step (solver_of (demo_libs solver_fails) r) 2 3 (init_work demo_vpoints 2) =
     Inr (fail_state 3 (init_work demo_vpoints 2))"
  by (rule step_fail) (simp_all add: demo_solver_of_fails init_work_sel demo_vpoints_def)

lemma solver_ok_fails: "solver_ok (\<lambda>vps a. Inl ValueError) kinds"
  by (simp add: solver_ok_def)

lemma demo_succeeds_always: "solver_succeeds_always (solver_succeeds exprs mapping) kinds"
  by (simp add: solver_succeeds_always_def solver_succeeds_def frame_ok_def demo_frame_def)

text \<open>
  One driver and the solver that always succeeds: the forward sweep makes 121 calls,
  all for driver 0 and none failing, and every path is the list of their samples.
\<close>

lemma demo_one_driver_sweep:
  "\<exists>t. sweep (solver_succeeds [] Map.empty) (length demo_vpoints) 1 Forward (init_work demo_vpoints 1) = Inr t \<and>
       (\<forall>c\<in>set (calls t). \<not> failed c) \<and>
       calls_for 0 (calls t) = calls t \<and> length (calls t) = 121 \<and>
       length (path t) = 2 \<and>
       (\<forall>i<2. path t ! i = map (sample_of i) (calls t))"
proof -
  let ?solve = "solver_succeeds [] Map.empty" and ?ks = "map vtype demo_vpoints"
  let ?s0 = "init_work demo_vpoints 1"
  have ok: "solver_ok ?solve ?ks"
    using demo_succeeds_always by (rule succeeds_always_ok)
  have wf: "wf_state ?ks 1 ?s0" by (rule wf_init)
  from sweep_total [OF ok wf, of "length demo_vpoints" Forward] obtain t
    where t: "sweep ?solve (length demo_vpoints) 1 Forward ?s0 = Inr t" by auto
  then have t': "sweep ?solve (length ?ks) 1 Forward ?s0 = Inr t" by simp
  from sweep_aligned_logged [OF t' wf aligned_init logged_init]
  have wft: "wf_state ?ks 1 t" and al: "aligned t" and lg: "logged ?solve ?ks t" by simp_all
  have nf: "\<forall>c\<in>set (calls t). \<not> failed c"
    using succeeds_not_failed [OF demo_succeeds_always lg] .
  from sweep_new_calls [OF t _ wf] obtain new
    where n: "calls t = calls ?s0 @ new" and lo: "\<forall>c\<in>set new. dp ?s0 \<le> c_dp c"
      and c: "\<forall>j. dp ?s0 \<le> j \<and> j < 1 \<longrightarrow>
              calls_for j new \<noteq> [] \<and>
              ((\<forall>c\<in>set (calls_for j new). \<not> failed c) \<longrightarrow>
                 length (calls_for j new) = nat ((360 - angles_params ?s0 ! j) div 3) + 1)"
    by auto
  from n have new: "new = calls t" by (simp add: init_work_sel)
  have inv: "angles_inv 1 t"
  proof -
    have "wf_state ?ks 1 t \<and> angles_inv 1 t \<and> 1 \<le> dp t"
      using t' _ wf angles_inv_init
    proof (rule sweep_invariant)
      show "length ?ks = length ?ks" by simp
    next
      fix s s'
      assume "wf_state ?ks 1 s" "angles_inv 1 s" "dp s < 1"
        "step ?solve (length ?ks) (interval_of Forward) s = Inr s'"
      then show "angles_inv 1 s'" by (rule angles_inv_step)
    qed
    then show ?thesis by simp
  qed
  have all0: "calls_for 0 (calls t) = calls t"
    using inv by (auto simp: calls_for_def angles_inv_def call_ok_def)
  from c new nf all0 have "length (calls t) = nat ((360 - angles_params ?s0 ! 0) div 3) + 1"
    by (simp add: init_work_sel)
  then have len: "length (calls t) = 121" by (simp add: init_work_sel)
  have "length (path t) = 2" using wft by (simp add: wf_state_def demo_vpoints_def)
  moreover from this al have "\<forall>i<2. path t ! i = map (sample_of i) (calls t)"
    by (simp add: aligned_def)
  ultimately show ?thesis using t nf all0 len by blast
qed

lemma demo_solver_succeeds_always:
  "solver_succeeds_always (solver_of (demo_libs solver_succeeds) r) kinds"
  using demo_succeeds_always by (simp add: solver_of_def demo_libs_def)

subsection \<open>The trace depends on the solver through its answers only\<close>







subsection \<open>The state in which a trace starts\<close>



text \<open>
  The assignments matter: the two sweeps do depend on the cumulative angles they are
  started with. With one driver and a solver that always succeeds they make 122 calls
  from the cumulative angle 0, and 2 calls from the cumulative angle 363.
\<close>

lemma one_driver_from:
  assumes ok: "solver_succeeds_always solve (map vtype vps)"
    and n1: "n1 = nat ((360 - c) div 3)"
    and n2: "n2 = nat ((360 - (c + 3 * (int n1 + 1))) div 3)"
    and wf0: "wf_state (map vtype vps) 1 s0"
    and s0: "dp s0 = 0" "angles s0 = [0]" "angles_params s0 = [c]" "calls s0 = []"
  shows "\<exists>t. for_intervals solve (length vps) 1 [Forward, Backward] s0 = Inr t \<and>
             length (calls t) = n1 + 1 + (n2 + 1)"
proof -
  let ?ks = "map vtype vps"
  have "\<exists>s'. sweep solve (length ?ks) 1 Forward s0 = sweep solve (length ?ks) 1 Forward s' \<and>
           wf_state ?ks 1 s' \<and> dp s' = dp s0 + 1 \<and>
           angles s' = (angles s0)[dp s0 := (angles s0 ! dp s0 + interval_of Forward * (int n1 + 1)) mod 360
                                          - interval_of Forward] \<and>
           angles_params s' = (angles_params s0)[dp s0 := angles_params s0 ! dp s0 + 3 * (int n1 + 1)] \<and>
           map (\<lambda>c. (c_dp c, c_angles c)) (calls s') =
             map (\<lambda>c. (c_dp c, c_angles c)) (calls s0) @
             map (\<lambda>k. (dp s0, (angles s0)[dp s0 := (angles s0 ! dp s0 + interval_of Forward * int k) mod 360]))
               [0..<n1 + 1]"
    by (rule run_driver [OF ok _ wf0]) (simp_all add: s0 n1)
  then obtain s1 where f1: "sweep solve (length vps) 1 Forward s0 = sweep solve (length vps) 1 Forward s1"
    and wf1: "wf_state ?ks 1 s1" and d1: "dp s1 = 1"
    and p1: "angles_params s1 = [c + 3 * (int n1 + 1)]"
    and c1: "map (\<lambda>c. (c_dp c, c_angles c)) (calls s1) =
               map (\<lambda>k. (0, [(3 * int k) mod 360])) [0..<n1 + 1]"
    by (auto simp: s0)
  have "length (map (\<lambda>c. (c_dp c, c_angles c)) (calls s1)) = n1 + 1"
    unfolding c1 by simp
  then have l1: "length (calls s1) = n1 + 1" by simp
  have fw: "sweep solve (length vps) 1 Forward s0 = Inr s1"
    using f1 d1 by (simp add: sweep_done)
  let ?r1 = "s1\<lparr>dp := 0, angles := replicate 1 0\<rparr>"
  have wfr: "wf_state ?ks 1 ?r1" using wf1 by (rule wf_reset)
  have r1: "dp ?r1 = 0" "angles ?r1 = [0]" "angles_params ?r1 = [c + 3 * (int n1 + 1)]"
    "calls ?r1 = calls s1"
    by (simp_all add: p1)
  have "\<exists>s'. sweep solve (length ?ks) 1 Backward ?r1 = sweep solve (length ?ks) 1 Backward s' \<and>
           wf_state ?ks 1 s' \<and> dp s' = dp ?r1 + 1 \<and>
           angles s' = (angles ?r1)[dp ?r1 := (angles ?r1 ! dp ?r1 + interval_of Backward * (int n2 + 1)) mod 360
                                          - interval_of Backward] \<and>
           angles_params s' = (angles_params ?r1)[dp ?r1 := angles_params ?r1 ! dp ?r1 + 3 * (int n2 + 1)] \<and>
           map (\<lambda>c. (c_dp c, c_angles c)) (calls s') =
             map (\<lambda>c. (c_dp c, c_angles c)) (calls ?r1) @
             map (\<lambda>k. (dp ?r1, (angles ?r1)[dp ?r1 := (angles ?r1 ! dp ?r1 + interval_of Backward * int k) mod 360]))
               [0..<n2 + 1]"
    by (rule run_driver [OF ok _ wfr]) (simp_all add: p1 n2 algebra_simps)
  then obtain s2 where f2: "sweep solve (length vps) 1 Backward ?r1 = sweep solve (length vps) 1 Backward s2"
    and d2: "dp s2 = 1"
    and c2: "map (\<lambda>c. (c_dp c, c_angles c)) (calls s2) =
               map (\<lambda>c. (c_dp c, c_angles c)) (calls s1) @
               map (\<lambda>k. (0, [(- 3 * int k) mod 360])) [0..<n2 + 1]"
    by (auto simp: r1)
  have "length (map (\<lambda>c. (c_dp c, c_angles c)) (calls s2)) = n1 + 1 + (n2 + 1)"
    unfolding c2 using l1 by simp
  then have l2: "length (calls s2) = n1 + 1 + (n2 + 1)" by simp
  have bw: "sweep solve (length vps) 1 Backward ?r1 = Inr s2"
    using f2 d2 by (simp add: sweep_done)
  have reset0: "s0\<lparr>dp := 0, angles := [0]\<rparr> = s0"
    using s0(1,2) by (cases s0) simp
  have "for_intervals solve (length vps) 1 [Forward, Backward] s0 = Inr s2"
    using fw bw by (simp add: reset0)
  with l2 show ?thesis by blast
qed

lemma sweeps_depend_on_angles_params:
  "(\<exists>t. for_intervals (solver_succeeds [] Map.empty) (length demo_vpoints) 1 [Forward, Backward]
          ((init_work demo_vpoints 1)\<lparr>angles_params := [0]\<rparr>) = Inr t \<and> length (calls t) = 122) \<and>
   (\<exists>t. for_intervals (solver_succeeds [] Map.empty) (length demo_vpoints) 1 [Forward, Backward]
          ((init_work demo_vpoints 1)\<lparr>angles_params := [363]\<rparr>) = Inr t \<and> length (calls t) = 2)"
proof
  have wf: "wf_state (map vtype demo_vpoints) 1 ((init_work demo_vpoints 1)\<lparr>angles_params := [c]\<rparr>)" for c
    by (simp add: wf_state_def init_work_def)
  have ok: "solver_succeeds_always (solver_succeeds [] Map.empty) (map vtype demo_vpoints)"
    by (rule demo_succeeds_always)
  show "\<exists>t. for_intervals (solver_succeeds [] Map.empty) (length demo_vpoints) 1 [Forward, Backward]
          ((init_work demo_vpoints 1)\<lparr>angles_params := [0]\<rparr>) = Inr t \<and> length (calls t) = 122"
    using one_driver_from [where solve = "solver_succeeds [] Map.empty" and vps = demo_vpoints
        and c = 0 and ?n1.0 = 120 and ?n2.0 = 0
        and ?s0.0 = "(init_work demo_vpoints 1)\<lparr>angles_params := [0]\<rparr>", OF ok _ _ wf]
    by (simp add: init_work_def)
  show "\<exists>t. for_intervals (solver_succeeds [] Map.empty) (length demo_vpoints) 1 [Forward, Backward]
          ((init_work demo_vpoints 1)\<lparr>angles_params := [363]\<rparr>) = Inr t \<and> length (calls t) = 2"
    using one_driver_from [where solve = "solver_succeeds [] Map.empty" and vps = demo_vpoints
        and c = 363 and ?n1.0 = 0 and ?n2.0 = 0
        and ?s0.0 = "(init_work demo_vpoints 1)\<lparr>angles_params := [363]\<rparr>", OF ok _ _ wf]
    by (simp add: init_work_def numeral_2_eq_2)
qed

subsection \<open>The two directions of a trace\<close>

text \<open>
  A trace that returns is a forward sweep that returns with the driver pointer at the
  number of drivers, followed by a backward sweep from the state it leaves, with the
  driver pointer and the angles set anew; each of the two makes a call for every driver.
\<close>

lemma trace_directions:
  assumes "trace_result L r = Inr t"
  shows "\<exists>s1 bw.
           sweep (solver_of L r) (length (vpoints_of L r)) (i_count_of (exprs_of L r)) Forward
             (init_work (vpoints_of L r) (i_count_of (exprs_of L r))) = Inr s1 \<and>
           dp s1 = i_count_of (exprs_of L r) \<and>
           sweep (solver_of L r) (length (vpoints_of L r)) (i_count_of (exprs_of L r)) Backward
             (s1\<lparr>dp := 0, angles := replicate (i_count_of (exprs_of L r)) 0\<rparr>) = Inr t \<and>
           dp t = i_count_of (exprs_of L r) \<and>
           calls t = calls s1 @ bw \<and>
           (\<forall>j<i_count_of (exprs_of L r). calls_for j (calls s1) \<noteq> [] \<and> calls_for j bw \<noteq> [])"
proof -
  let ?ic = "i_count_of (exprs_of L r)" and ?ks = "map vtype (vpoints_of L r)"
  let ?s0 = "init_work (vpoints_of L r) ?ic"
  from trace_two_sweeps [OF assms] obtain s1
    where f: "sweep (solver_of L r) (length (vpoints_of L r)) ?ic Forward ?s0 = Inr s1"
      and b: "sweep (solver_of L r) (length (vpoints_of L r)) ?ic Backward
               (s1\<lparr>dp := 0, angles := replicate ?ic 0\<rparr>) = Inr t" by blast
  let ?r1 = "s1\<lparr>dp := 0, angles := replicate ?ic 0\<rparr>"
  have lk: "length (vpoints_of L r) = length ?ks" by simp
  have inv1: "wf_state ?ks ?ic s1 \<and> angles_inv ?ic s1 \<and> ?ic \<le> dp s1"
    using f lk wf_init angles_inv_init
  proof (rule sweep_invariant)
    fix s s'
    assume "wf_state ?ks ?ic s" "angles_inv ?ic s" "dp s < ?ic"
      "step (solver_of L r) (length ?ks) (interval_of Forward) s = Inr s'"
    then show "angles_inv ?ic s'" by (rule angles_inv_step)
  qed
  then have wf1: "wf_state ?ks ?ic s1" and d1: "dp s1 = ?ic"
    by (simp_all add: angles_inv_def)
  have wfr: "wf_state ?ks ?ic ?r1" using wf1 by (rule wf_reset)
  from sweep_new_calls [OF f lk wf_init] obtain fw
    where nf: "calls s1 = calls ?s0 @ fw \<and> (\<forall>c\<in>set fw. dp ?s0 \<le> c_dp c) \<and>
           (\<forall>j. dp ?s0 \<le> j \<and> j < ?ic \<longrightarrow>
              calls_for j fw \<noteq> [] \<and>
              ((\<forall>c\<in>set (calls_for j fw). \<not> failed c) \<longrightarrow>
                 length (calls_for j fw) = nat ((360 - angles_params ?s0 ! j) div 3) + 1))" ..
  from nf have fw: "calls s1 = fw" by (simp add: init_work_sel)
  from nf have cf: "\<forall>j. dp ?s0 \<le> j \<and> j < ?ic \<longrightarrow>
              calls_for j fw \<noteq> [] \<and>
              ((\<forall>c\<in>set (calls_for j fw). \<not> failed c) \<longrightarrow>
                 length (calls_for j fw) = nat ((360 - angles_params ?s0 ! j) div 3) + 1)"
    by (elim conjE)
  from sweep_new_calls [OF b lk wfr] obtain bw
    where nb: "calls t = calls ?r1 @ bw \<and> (\<forall>c\<in>set bw. dp ?r1 \<le> c_dp c) \<and>
           (\<forall>j. dp ?r1 \<le> j \<and> j < ?ic \<longrightarrow>
              calls_for j bw \<noteq> [] \<and>
              ((\<forall>c\<in>set (calls_for j bw). \<not> failed c) \<longrightarrow>
                 length (calls_for j bw) = nat ((360 - angles_params ?r1 ! j) div 3) + 1))" ..
  from nb have bw: "calls t = calls s1 @ bw" by simp
  from nb have cb: "\<forall>j. dp ?r1 \<le> j \<and> j < ?ic \<longrightarrow>
              calls_for j bw \<noteq> [] \<and>
              ((\<forall>c\<in>set (calls_for j bw). \<not> failed c) \<longrightarrow>
                 length (calls_for j bw) = nat ((360 - angles_params ?r1 ! j) div 3) + 1)"
    by (elim conjE)
  have each: "calls_for j (calls s1) \<noteq> [] \<and> calls_for j bw \<noteq> []" if "j < ?ic" for j
  proof
    have "dp ?s0 \<le> j \<and> j < ?ic" using that by (simp add: init_work_sel)
    with cf have "calls_for j fw \<noteq> []" by blast
    then show "calls_for j (calls s1) \<noteq> []" by (simp add: fw)
    have "dp ?r1 \<le> j \<and> j < ?ic" using that by simp
    with cb show "calls_for j bw \<noteq> []" by blast
  qed
  have dt: "dp t = ?ic" using assms by (rule trace_final_dp)
  from f d1 b dt bw each show ?thesis by blast
qed

section \<open>The claims\<close>

subsection \<open>C1: two drivers, a solver that always succeeds\<close>

text \<open>
  Claim C1, as amended. The claim asks for 120 samples per driver in the forward sweep
  and 120 in the backward sweep, the two sweeps being independent. The code takes 121
  and 1: the cumulative angles \<^verbatim>\<open>angles_params\<close> are created once, before
  \<^verbatim>\<open>for interval in (3, -3)\<close>, so that the backward sweep of a driver that has
  completed its revolution ends after one sample.

  For a mechanism with two drivers and a solver that succeeds on every call, the trace
  returns, and its calls are, in this order: 121 calls for driver 0, at the angles
  0, 3, ..., 357, 0, with driver 1 at 0; 121 calls for driver 1, at the angles
  0, 3, ..., 357, 0, with driver 0 held at 0, the value that the rollback left, which is
  the angle of its last accepted sample; then, in the backward sweep, which starts with
  both angles at 0 again, one call for driver 0 at 0 and one call for driver 1 with
  driver 0 held at 360. No call fails, and the path of every joint is the list of the
  samples of these 244 calls, with no sentinel among them.
\<close>

theorem two_driver_trace:
  assumes "solver_succeeds_always (solver_of L r) (map vtype (vpoints_of L r))"
    and "i_count_of (exprs_of L r) = 2"
  shows "\<exists>t. trace_result L r = Inr t \<and>
           map (\<lambda>c. (c_dp c, c_angles c)) (calls t) =
             map (\<lambda>k. (0, [(3 * int k) mod 360, 0])) [0..<121] @
             map (\<lambda>k. (1, [0, (3 * int k) mod 360])) [0..<121] @
             [(0, [0, 0]), (1, [360, 0])] \<and>
           (\<forall>c\<in>set (calls t). \<not> failed c) \<and>
           (\<forall>i<length (vpoints_of L r).
              path t ! i = map (sample_of i) (calls t) \<and> length (path t ! i) = 244 \<and>
              NaN \<notin> set (path t ! i))"
proof -
  from two_driver_calls [OF assms(1)] assms(2) obtain t
    where t: "trace_result L r = Inr t"
      and c: "map (\<lambda>c. (c_dp c, c_angles c)) (calls t) =
             map (\<lambda>k. (0, [(3 * int k) mod 360, 0])) [0..<121] @
             map (\<lambda>k. (1, [0, (3 * int k) mod 360])) [0..<121] @
             [(0, [0, 0]), (1, [360, 0])]"
    by (auto simp: trace_result_def Let_def)
  have "length (map (\<lambda>c. (c_dp c, c_angles c)) (calls t)) = 244"
    unfolding c by simp
  then have len: "length (calls t) = 244" by simp
  have nf: "\<forall>c\<in>set (calls t). \<not> failed c"
    using succeeds_not_failed [OF assms(1) trace_logged [OF t]] .
  from trace_aligned [OF t] have pl: "length (path t) = length (vpoints_of L r)"
    and al: "\<forall>i<length (path t). path t ! i = map (sample_of i) (calls t)"
    by (simp_all add: aligned_def)
  have "path t ! i = map (sample_of i) (calls t) \<and> length (path t ! i) = 244 \<and>
        NaN \<notin> set (path t ! i)" if "i < length (vpoints_of L r)" for i
  proof -
    from that pl al have p: "path t ! i = map (sample_of i) (calls t)" by simp
    moreover have "NaN \<notin> set (map (sample_of i) (calls t))"
    proof
      assume "NaN \<in> set (map (sample_of i) (calls t))"
      then obtain c where "c \<in> set (calls t)" "sample_of i c = NaN" by auto
      with nf sample_of_not_failed [of c i] show False by simp
    qed
    ultimately show ?thesis using len by simp
  qed
  with t c nf show ?thesis by blast
qed

text \<open>
  The hypotheses of C1 hold for the example of two drivers with the solver that always
  succeeds.
\<close>

theorem two_driver_trace_witness:
  "solver_succeeds_always (solver_of (demo_libs solver_succeeds) (demo_result two_drivers))
     (map vtype (vpoints_of (demo_libs solver_succeeds) (demo_result two_drivers))) \<and>
   i_count_of (exprs_of (demo_libs solver_succeeds) (demo_result two_drivers)) = 2 \<and>
   (\<exists>t. trace_result (demo_libs solver_succeeds) (demo_result two_drivers) = Inr t \<and>
        map (\<lambda>c. (c_dp c, c_angles c)) (calls t) =
             map (\<lambda>k. (0, [(3 * int k) mod 360, 0])) [0..<121] @
             map (\<lambda>k. (1, [0, (3 * int k) mod 360])) [0..<121] @
             [(0, [0, 0]), (1, [360, 0])] \<and>
        length (path t ! 0) = 244 \<and> length (path t ! 1) = 244)"
proof -
  have h1: "solver_succeeds_always (solver_of (demo_libs solver_succeeds) (demo_result two_drivers))
     (map vtype (vpoints_of (demo_libs solver_succeeds) (demo_result two_drivers)))"
    by (rule demo_solver_succeeds_always)
  have h2: "i_count_of (exprs_of (demo_libs solver_succeeds) (demo_result two_drivers)) = 2"
    by (rule demo_exprs_2)
  have l: "length (vpoints_of (demo_libs solver_succeeds) (demo_result two_drivers)) = 2"
    by (simp add: demo_vpoints_of demo_vpoints_def)
  from two_driver_trace [OF h1 h2] l
  have "\<exists>t. trace_result (demo_libs solver_succeeds) (demo_result two_drivers) = Inr t \<and>
        map (\<lambda>c. (c_dp c, c_angles c)) (calls t) =
             map (\<lambda>k. (0, [(3 * int k) mod 360, 0])) [0..<121] @
             map (\<lambda>k. (1, [0, (3 * int k) mod 360])) [0..<121] @
             [(0, [0, 0]), (1, [360, 0])] \<and>
        length (path t ! 0) = 244 \<and> length (path t ! 1) = 244"
    by (auto simp: numeral_2_eq_2)
  with h1 h2 show ?thesis by blast
qed

text \<open>
  C1 as it was stated fails: with two drivers and a solver that always succeeds, the
  calls are 121 for driver 0, 121 for driver 1, and one more for each in the backward
  sweep; every joint has 244 samples, not 480.
\<close>

theorem two_driver_counterexample:
  "map_sum id (\<lambda>t. (map c_dp (calls t), map length (path t)))
     (trace_result (demo_libs solver_succeeds) (demo_result two_drivers)) =
   Inr (replicate 121 0 @ replicate 121 1 @ [0, 1], [244, 244])"
proof -
  let ?L = "demo_libs solver_succeeds" and ?r = "demo_result two_drivers"
  from two_driver_calls [OF demo_solver_succeeds_always, of ?r "vpoints_of ?L ?r"] obtain t
    where t: "trace_result ?L ?r = Inr t"
      and c: "map (\<lambda>c. (c_dp c, c_angles c)) (calls t) =
             map (\<lambda>k. (0, [(3 * int k) mod 360, 0])) [0..<121] @
             map (\<lambda>k. (1, [0, (3 * int k) mod 360])) [0..<121] @
             [(0, [0, 0]), (1, [360, 0])]"
    by (auto simp: trace_result_def Let_def demo_exprs_2)
  have "map c_dp (calls t) = map fst (map (\<lambda>c. (c_dp c, c_angles c)) (calls t))"
    by (simp add: comp_def)
  also have "\<dots> = replicate 121 0 @ replicate 121 1 @ [0, 1]"
    unfolding c by (simp add: comp_def map_replicate_const)
  finally have dps: "map c_dp (calls t) = replicate 121 0 @ replicate 121 1 @ [0, 1]" .
  then have "length (map c_dp (calls t)) = 244" by simp
  then have len: "length (calls t) = 244" by simp
  from trace_aligned [OF t] have pl: "length (path t) = 2"
    and al: "\<forall>i<length (path t). path t ! i = map (sample_of i) (calls t)"
    by (simp_all add: aligned_def demo_vpoints_of demo_vpoints_def)
  have "map length (path t) = [244, 244]"
    using pl al len by (intro nth_equalityI) (auto simp: less_Suc_eq numeral_2_eq_2)
  with t dps show ?thesis by simp
qed

subsection \<open>C2: the number of samples of a driver that meets no failure\<close>

text \<open>
  Claim C2, as amended. The claim counts \<open>360 / |interval| = 120\<close> accepted samples; the
  code compares \<^verbatim>\<open>angles_params[dp] > 360\<close> after the sample has been appended, and
  rolls back the angle only, so the sample of the pass that ends the revolution stays.

  Under the contract of the solver, a sweep started in a state of the right shape
  returns; it extends the list of the calls, and the path of every joint by the samples
  of exactly the new calls. For a driver \<open>j\<close> that the pointer has not passed and
  whose calls in this sweep all succeed, the number of these calls, which is the number
  of samples accepted for it per joint, is \<open>(360 - c) div 3 + 1\<close>, and 1 when that is less,
  where \<open>c\<close> is the cumulative angle of \<open>j\<close> at the start of the sweep: 121 in the
  forward sweep, where \<open>c = 0\<close>.
\<close>

theorem revolution_sample_count:
  assumes "solver_ok solve kinds" and "wf_state kinds i_count s" and "aligned s"
    and "dp s \<le> j" and "j < i_count"
  shows "\<exists>t new. sweep solve (length kinds) i_count d s = Inr t \<and>
           calls t = calls s @ new \<and>
           (\<forall>i<length kinds. path t ! i = path s ! i @ map (sample_of i) new) \<and>
           ((\<forall>c\<in>set (calls_for j new). \<not> failed c) \<longrightarrow>
              length (calls_for j new) = nat ((360 - angles_params s ! j) div 3) + 1)"
proof -
  from sweep_total [OF assms(1,2), of "length kinds" d] obtain t
    where t: "sweep solve (length kinds) i_count d s = Inr t" by auto
  from sweep_new_calls [OF t _ assms(2)] obtain new
    where n: "calls t = calls s @ new"
      and c: "\<forall>j. dp s \<le> j \<and> j < i_count \<longrightarrow>
              calls_for j new \<noteq> [] \<and>
              ((\<forall>c\<in>set (calls_for j new). \<not> failed c) \<longrightarrow>
                 length (calls_for j new) = nat ((360 - angles_params s ! j) div 3) + 1)"
    by auto
  have "wf_state kinds i_count t \<and> aligned t \<and> i_count \<le> dp t"
    using t _ assms(2,3)
  proof (rule sweep_invariant)
    show "length kinds = length kinds" by simp
  next
    fix s s'
    assume "wf_state kinds i_count s" "aligned s" "dp s < i_count"
      "step solve (length kinds) (interval_of d) s = Inr s'"
    then show "aligned s'" by (rule aligned_step)
  qed
  then have "\<forall>i<length kinds. path t ! i = path s ! i @ map (sample_of i) new"
    using new_samples [OF assms(3) _ n, of "length kinds"] assms(2) by (simp add: wf_state_def)
  with t n c assms(4,5) show ?thesis by blast
qed

text \<open>
  The hypotheses of C2 hold for the forward sweep of one driver with the solver that
  always succeeds; no call fails and driver 0 gets 121 calls.
\<close>

theorem revolution_sample_count_witness:
  "solver_ok (solver_succeeds [] Map.empty) (map vtype demo_vpoints) \<and>
   wf_state (map vtype demo_vpoints) 1 (init_work demo_vpoints 1) \<and>
   aligned (init_work demo_vpoints 1) \<and>
   dp (init_work demo_vpoints 1) \<le> 0 \<and> (0::nat) < 1 \<and>
   (\<exists>t new. sweep (solver_succeeds [] Map.empty) (length (map vtype demo_vpoints)) 1 Forward
               (init_work demo_vpoints 1) = Inr t \<and>
            calls t = calls (init_work demo_vpoints 1) @ new \<and>
            (\<forall>c\<in>set (calls_for 0 new). \<not> failed c) \<and>
            length (calls_for 0 new) = 121)"
proof -
  let ?solve = "solver_succeeds [] Map.empty" and ?ks = "map vtype demo_vpoints"
  let ?s0 = "init_work demo_vpoints 1"
  have h1: "solver_ok ?solve ?ks"
    using demo_succeeds_always by (rule succeeds_always_ok)
  have h2: "wf_state ?ks 1 ?s0" by (rule wf_init)
  have h3: "aligned ?s0" by (rule aligned_init)
  have h4: "dp ?s0 \<le> 0" by (simp add: init_work_sel)
  have h5: "(0::nat) < 1" by simp
  from revolution_sample_count [OF h1 h2 h3 h4 h5, of Forward] obtain t new
    where t: "sweep ?solve (length ?ks) 1 Forward ?s0 = Inr t"
      and n: "calls t = calls ?s0 @ new"
      and c: "(\<forall>c\<in>set (calls_for 0 new). \<not> failed c) \<longrightarrow>
              length (calls_for 0 new) = nat ((360 - angles_params ?s0 ! 0) div 3) + 1"
    by blast
  from demo_one_driver_sweep t have "\<forall>c\<in>set (calls t). \<not> failed c" by auto
  with n have nf: "\<forall>c\<in>set (calls_for 0 new). \<not> failed c"
    by (simp add: calls_for_def)
  with c have "length (calls_for 0 new) = 121" by (simp add: init_work_sel)
  with t n nf h1 h2 h3 h4 h5 show ?thesis by blast
qed

text \<open>
  C2 as it was stated fails: in the forward sweep of one driver with a solver that always
  succeeds, every joint gets 121 samples other than the sentinel, not 120.
\<close>

theorem revolution_sample_count_counterexample:
  "map_sum id (\<lambda>t. map (\<lambda>p. length (filter (\<lambda>x. x \<noteq> NaN) p)) (path t))
     (sweep (solver_succeeds [] Map.empty) (length demo_vpoints) 1 Forward (init_work demo_vpoints 1))
   = Inr [121, 121]"
proof -
  from demo_one_driver_sweep obtain t
    where t: "sweep (solver_succeeds [] Map.empty) (length demo_vpoints) 1 Forward
                (init_work demo_vpoints 1) = Inr t"
      and nf: "\<forall>c\<in>set (calls t). \<not> failed c"
      and len: "length (calls t) = 121" "length (path t) = 2"
      and p: "\<forall>i<2. path t ! i = map (sample_of i) (calls t)"
    by blast
  have keep: "filter (\<lambda>x. x \<noteq> NaN) (map (sample_of i) (calls t)) = map (sample_of i) (calls t)" for i
    using nf by (simp add: filter_id_conv sample_of_not_failed)
  have "length (filter (\<lambda>x. x \<noteq> NaN) (path t ! i)) = 121" if "i < 2" for i
    using that p keep [of i] len by simp
  then have "map (\<lambda>p. length (filter (\<lambda>x. x \<noteq> NaN) p)) (path t) = [121, 121]"
    using len(2) by (intro nth_equalityI) (auto simp: less_Suc_eq numeral_2_eq_2)
  with t show ?thesis by simp
qed

subsection \<open>C3: the shape of the returned path\<close>

text \<open>
  Claim C3. For a stored result at a valid row and a solver that meets its contract,
  \<^verbatim>\<open>__get_path\<close> returns a path with one sequence for each of the \<open>vpoint_count\<close>
  joints; every sequence has the length of the list of all calls made to the solver,
  failed or not, in both sweeps, and its entry \<open>k\<close> is the sample of call \<open>k\<close>.
\<close>

theorem path_index_aligned:
  assumes "row < length (mechanism_data w)"
    and "solver_ok (solver_of L (mechanism_data w ! row))
           (map vtype (vpoints_of L (mechanism_data w ! row)))"
  shows "\<exists>t. trace_result L (mechanism_data w ! row) = Inr t \<and>
             fst (get_path L w row) = Inr (path t) \<and>
             length (path t) = length (vpoints_of L (mechanism_data w ! row)) \<and>
             (\<forall>i<length (path t). length (path t ! i) = length (calls t) \<and>
                                  path t ! i = map (sample_of i) (calls t))"
proof -
  from trace_total [OF assms(2)] obtain t
    where t: "trace_result L (mechanism_data w ! row) = Inr t" by auto
  from trace_aligned [OF t] have "length (path t) = length (vpoints_of L (mechanism_data w ! row))"
    and "\<forall>i<length (path t). path t ! i = map (sample_of i) (calls t)"
    by (simp_all add: aligned_def)
  moreover have "fst (get_path L w row) = Inr (path t)"
    using assms(1) t by (simp add: get_path_def)
  ultimately show ?thesis using t by simp
qed

text \<open>
  The hypotheses of C3 hold for the example of two drivers with the solver that always
  succeeds.
\<close>

theorem path_index_aligned_witness:
  "(0::nat) < length (mechanism_data \<lparr>mechanism_data = [demo_result two_drivers]\<rparr>) \<and>
   solver_ok (solver_of (demo_libs solver_succeeds) (demo_result two_drivers))
     (map vtype (vpoints_of (demo_libs solver_succeeds) (demo_result two_drivers))) \<and>
   (\<exists>t. trace_result (demo_libs solver_succeeds) (demo_result two_drivers) = Inr t \<and>
        fst (get_path (demo_libs solver_succeeds)
               \<lparr>mechanism_data = [demo_result two_drivers]\<rparr> 0) = Inr (path t) \<and>
        length (path t) = 2 \<and>
        (\<forall>i<length (path t). length (path t ! i) = length (calls t) \<and>
                             path t ! i = map (sample_of i) (calls t)))"
proof -
  let ?w = "\<lparr>mechanism_data = [demo_result two_drivers]\<rparr>"
  have h1: "(0::nat) < length (mechanism_data ?w)" by simp
  have h2: "solver_ok (solver_of (demo_libs solver_succeeds) (mechanism_data ?w ! 0))
     (map vtype (vpoints_of (demo_libs solver_succeeds) (mechanism_data ?w ! 0)))"
    using demo_solver_ok by (simp add: demo_solver_of)
  show ?thesis
    using h1 h2 path_index_aligned [OF h1 h2]
    by (simp add: demo_vpoints_of demo_vpoints_def numeral_2_eq_2)
qed

subsection \<open>C4: a failure of the solver\<close>

text \<open>
  Claim C4. When the solver raises \<^verbatim>\<open>ValueError\<close>, the pass of the loop body appends
  the sentinel, and nothing else, to every path, subtracts the interval from the angle of
  the active driver, and advances the driver pointer by 1, so that the next call is for
  the next driver; the joints and the cumulative angles stay as they are. When the
  solver fails on the very first call, the state after that pass has exactly one entry,
  the sentinel, in every path and the pointer at driver 1, and the forward sweep goes on
  from that state.
\<close>

theorem failure_ends_driver:
  "(solve (vpoints s) (angles s) = Inl ValueError \<and> length (path s) = vpoint_count \<and>
    dp s < length (angles s) \<longrightarrow>
      (\<exists>s'. step solve vpoint_count interval s = Inr s' \<and>
            path s' = map (\<lambda>p. p @ [NaN]) (path s) \<and>
            angles s' = (angles s)[dp s := angles s ! dp s - interval] \<and>
            dp s' = dp s + 1 \<and>
            vpoints s' = vpoints s \<and> angles_params s' = angles_params s \<and>
            calls s' = calls s @ [call_of s (Inl ValueError)])) \<and>
   (0 < i_count \<and> solve vps (replicate i_count 0) = Inl ValueError \<longrightarrow>
      (\<exists>s1. step solve (length vps) 3 (init_work vps i_count) = Inr s1 \<and>
            path s1 = replicate (length vps) [NaN] \<and> dp s1 = 1 \<and>
            sweep solve (length vps) i_count Forward (init_work vps i_count) =
              sweep solve (length vps) i_count Forward s1))"
proof (intro conjI impI)
  assume a: "solve (vpoints s) (angles s) = Inl ValueError \<and> length (path s) = vpoint_count \<and>
    dp s < length (angles s)"
  then have "step solve vpoint_count interval s = Inr (fail_state interval s)"
    by (simp add: step_fail)
  then show "\<exists>s'. step solve vpoint_count interval s = Inr s' \<and>
            path s' = map (\<lambda>p. p @ [NaN]) (path s) \<and>
            angles s' = (angles s)[dp s := angles s ! dp s - interval] \<and>
            dp s' = dp s + 1 \<and>
            vpoints s' = vpoints s \<and> angles_params s' = angles_params s \<and>
            calls s' = calls s @ [call_of s (Inl ValueError)]"
    by (simp add: fail_state_sel)
next
  let ?s0 = "init_work vps i_count"
  assume a: "0 < i_count \<and> solve vps (replicate i_count 0) = Inl ValueError"
  then have st: "step solve (length vps) 3 ?s0 = Inr (fail_state 3 ?s0)"
    by (intro step_fail) (simp_all add: init_work_sel)
  moreover have "path (fail_state 3 ?s0) = replicate (length vps) [NaN]"
    by (simp add: fail_state_sel init_work_sel)
  moreover have "dp (fail_state 3 ?s0) = 1"
    by (simp add: fail_state_sel init_work_sel)
  moreover have "sweep solve (length vps) i_count Forward ?s0 =
      sweep solve (length vps) i_count Forward (fail_state 3 ?s0)"
    using a st by (simp add: sweep.simps [of solve "length vps" i_count Forward ?s0] init_work_sel)
  ultimately show "\<exists>s1. step solve (length vps) 3 ?s0 = Inr s1 \<and>
            path s1 = replicate (length vps) [NaN] \<and> dp s1 = 1 \<and>
            sweep solve (length vps) i_count Forward ?s0 =
              sweep solve (length vps) i_count Forward s1"
    by blast
qed

text \<open>
  The hypotheses of C4 hold for the first pass of the example with the solver that always
  fails.
\<close>

theorem failure_ends_driver_witness:
  "solver_fails [] Map.empty (vpoints (init_work demo_vpoints 2)) (angles (init_work demo_vpoints 2))
     = Inl ValueError \<and>
   length (path (init_work demo_vpoints 2)) = 2 \<and>
   dp (init_work demo_vpoints 2) < length (angles (init_work demo_vpoints 2)) \<and>
   (0::nat) < 2 \<and>
   solver_fails [] Map.empty demo_vpoints (replicate 2 0) = Inl ValueError \<and>
   (\<exists>s1. step (solver_fails [] Map.empty) (length demo_vpoints) 3 (init_work demo_vpoints 2) = Inr s1 \<and>
         path s1 = [[NaN], [NaN]] \<and> dp s1 = 1 \<and> angles s1 = [- 3, 0])"
  using failure_ends_driver [of "solver_fails [] Map.empty" "init_work demo_vpoints 2" 2 3 2 demo_vpoints]
  by (auto simp: init_work_sel solver_fails_def demo_vpoints_def numeral_2_eq_2)

subsection \<open>C5: malformed input and escaping exceptions\<close>

text \<open>
  Claim C5, as amended. The code has no \<^verbatim>\<open>ConfigurationError\<close> and checks nothing
  about its input: an empty expression gives a path of empty sequences. What holds is
  the second half of the claim. A failure of the solver never escapes: for a valid row
  and a solver that raises nothing but \<^verbatim>\<open>ValueError\<close> and returns results that fit
  the joints, \<^verbatim>\<open>__get_path\<close> returns a path, of length \<open>vpoint_count\<close>, and leaves
  the widget unchanged. Any other exception of the solver ends the pass of the loop
  body at once, with that exception and no path.
\<close>

theorem solver_failures_do_not_escape:
  "(row < length (mechanism_data w) \<and>
    solver_ok (solver_of L (mechanism_data w ! row))
      (map vtype (vpoints_of L (mechanism_data w ! row))) \<longrightarrow>
      (\<exists>p. get_path L w row = (Inr p, w) \<and>
           length p = length (vpoints_of L (mechanism_data w ! row)))) \<and>
   (solve (vpoints s) (angles s) = Inl e \<and> e \<noteq> ValueError \<longrightarrow>
      step solve vpoint_count interval s = Inl e)"
proof (intro conjI impI)
  assume a: "row < length (mechanism_data w) \<and>
    solver_ok (solver_of L (mechanism_data w ! row))
      (map vtype (vpoints_of L (mechanism_data w ! row)))"
  then obtain t where t: "trace_result L (mechanism_data w ! row) = Inr t"
    using trace_total by blast
  from trace_aligned [OF t] have "length (path t) = length (vpoints_of L (mechanism_data w ! row))"
    by simp
  moreover have "get_path L w row = (Inr (path t), w)"
    using a t by (simp add: get_path_def)
  ultimately show "\<exists>p. get_path L w row = (Inr p, w) \<and>
           length p = length (vpoints_of L (mechanism_data w ! row))" by blast
next
  assume "solve (vpoints s) (angles s) = Inl e \<and> e \<noteq> ValueError"
  then show "step solve vpoint_count interval s = Inl e"
    by (simp add: step_raise)
qed

text \<open>
  The hypotheses of C5 hold for the example of two drivers with the solver that always
  fails, and for a solver that raises \<^verbatim>\<open>RuntimeError\<close>.
\<close>

theorem solver_failures_do_not_escape_witness:
  "(0::nat) < length (mechanism_data \<lparr>mechanism_data = [demo_result two_drivers]\<rparr>) \<and>
   solver_ok (solver_of (demo_libs solver_fails) (demo_result two_drivers))
     (map vtype (vpoints_of (demo_libs solver_fails) (demo_result two_drivers))) \<and>
   (\<exists>p. get_path (demo_libs solver_fails) \<lparr>mechanism_data = [demo_result two_drivers]\<rparr> 0 =
          (Inr p, \<lparr>mechanism_data = [demo_result two_drivers]\<rparr>) \<and> length p = 2) \<and>
   (\<lambda>vps a. Inl RuntimeError) (vpoints (init_work demo_vpoints 2)) (angles (init_work demo_vpoints 2))
      = (Inl RuntimeError :: exn + solved list) \<and>
   RuntimeError \<noteq> ValueError \<and>
   step (\<lambda>vps a. Inl RuntimeError) 2 3 (init_work demo_vpoints 2) = Inl RuntimeError"
proof -
  let ?w = "\<lparr>mechanism_data = [demo_result two_drivers]\<rparr>"
  have h1: "(0::nat) < length (mechanism_data ?w)" by simp
  have h2: "solver_ok (solver_of (demo_libs solver_fails) (mechanism_data ?w ! 0))
     (map vtype (vpoints_of (demo_libs solver_fails) (mechanism_data ?w ! 0)))"
    using solver_ok_fails by (simp add: demo_solver_of_fails)
  from solver_failures_do_not_escape [of 0 ?w "demo_libs solver_fails"
      "\<lambda>vps a. Inl RuntimeError" "init_work demo_vpoints 2" RuntimeError 2 3] h1 h2
  show ?thesis
    by (simp add: demo_vpoints_of demo_vpoints_def numeral_2_eq_2)
qed

text \<open>
  C5 as it was stated fails: for the empty expression the result is a path of two empty
  sequences, not an error.
\<close>

theorem configuration_error_counterexample:
  "get_path (demo_libs solver_fails) \<lparr>mechanism_data = [demo_result []]\<rparr> 0 =
     (Inr [[], []], \<lparr>mechanism_data = [demo_result []]\<rparr>)"
  by (simp add: get_path_def demo_empty_trace init_work_sel demo_vpoints_def numeral_2_eq_2)

subsection \<open>C6: only the active driver is turned\<close>

text \<open>
  Claim C6. One pass of the loop body, whether the solver succeeds or fails, leaves the
  angle of every driver other than the active one as it was. In a trace, at every call
  of the solver the drivers after the active one are at angle 0.
\<close>

theorem only_active_driver_changes:
  "(step solve vpoint_count interval s = Inr s' \<longrightarrow>
      length (angles s') = length (angles s) \<and>
      (\<forall>i. i \<noteq> dp s \<longrightarrow> angles s' ! i = angles s ! i)) \<and>
   (trace_result L r = Inr t \<longrightarrow>
      (\<forall>c\<in>set (calls t). \<forall>i. c_dp c < i \<and> i < i_count_of (exprs_of L r) \<longrightarrow> c_angles c ! i = 0))"
proof -
  have a: "step solve vpoint_count interval s = Inr s' \<longrightarrow>
      length (angles s') = length (angles s) \<and>
      (\<forall>i. i \<noteq> dp s \<longrightarrow> angles s' ! i = angles s ! i)"
    using step_other_angles [of solve vpoint_count interval s s'] by blast
  have b: "trace_result L r = Inr t \<longrightarrow>
      (\<forall>c\<in>set (calls t). \<forall>i. c_dp c < i \<and> i < i_count_of (exprs_of L r) \<longrightarrow> c_angles c ! i = 0)"
    using trace_angles_inv [of L r t] by (simp add: angles_inv_def call_ok_def)
  from a b show ?thesis ..
qed

text \<open>
  The hypotheses of C6 hold for the first pass and for the trace of the example with the
  solver that always fails.
\<close>

theorem only_active_driver_changes_witness:
  "step (solver_of (demo_libs solver_fails) (demo_result two_drivers)) 2 3 (init_work demo_vpoints 2)
     = Inr (fail_state 3 (init_work demo_vpoints 2)) \<and>
   trace_result (demo_libs solver_fails) (demo_result two_drivers) = Inr demo_fail_final \<and>
   (1::nat) \<noteq> dp (init_work demo_vpoints 2) \<and>
   angles (fail_state 3 (init_work demo_vpoints 2)) ! 1 = angles (init_work demo_vpoints 2) ! 1 \<and>
   c_dp (calls demo_fail_final ! 2) < 1 \<and>
   (1::nat) < i_count_of (exprs_of (demo_libs solver_fails) (demo_result two_drivers)) \<and>
   c_angles (calls demo_fail_final ! 2) ! 1 = 0"
proof -
  have h1: "step (solver_of (demo_libs solver_fails) (demo_result two_drivers)) 2 3
     (init_work demo_vpoints 2) = Inr (fail_state 3 (init_work demo_vpoints 2))"
    by (rule demo_step_fail)
  have h2: "trace_result (demo_libs solver_fails) (demo_result two_drivers) = Inr demo_fail_final"
    by (rule demo_fail_trace)
  have h3: "(1::nat) \<noteq> dp (init_work demo_vpoints 2)"
    by (simp add: init_work_sel)
  have m: "calls demo_fail_final ! 2 \<in> set (calls demo_fail_final)"
    by (simp add: demo_fail_final_def)
  have h4: "c_dp (calls demo_fail_final ! 2) < 1"
    by (simp add: demo_fail_final_def)
  have h5: "(1::nat) < i_count_of (exprs_of (demo_libs solver_fails) (demo_result two_drivers))"
    by (simp add: demo_exprs_2)
  from only_active_driver_changes [of "solver_of (demo_libs solver_fails) (demo_result two_drivers)"
      2 3 "init_work demo_vpoints 2" "fail_state 3 (init_work demo_vpoints 2)"
      "demo_libs solver_fails" "demo_result two_drivers" demo_fail_final] h1 h2
  have "(\<forall>i. i \<noteq> dp (init_work demo_vpoints 2) \<longrightarrow>
           angles (fail_state 3 (init_work demo_vpoints 2)) ! i = angles (init_work demo_vpoints 2) ! i) \<and>
        (\<forall>c\<in>set (calls demo_fail_final). \<forall>i. c_dp c < i \<and>
           i < i_count_of (exprs_of (demo_libs solver_fails) (demo_result two_drivers)) \<longrightarrow>
           c_angles c ! i = 0)"
    by simp
  with h3 m h4 h5
  have "angles (fail_state 3 (init_work demo_vpoints 2)) ! 1 = angles (init_work demo_vpoints 2) ! 1 \<and>
        c_angles (calls demo_fail_final ! 2) ! 1 = 0"
    by blast
  with h1 h2 h3 h4 h5 show ?thesis by blast
qed

subsection \<open>C7: the range of the drive angles\<close>

text \<open>
  Claim C7, as amended. Only the advance \<^verbatim>\<open>angles[dp] += interval\<close> is followed by
  \<^verbatim>\<open>angles[dp] %= 360\<close>; the back-off after a failure and the rollback at the end of a
  revolution subtract the interval from a wrapped angle and do not wrap again. In a
  trace, at every call of the solver the angle of the active driver is at least 0 and
  less than 360, and the angle of every driver is at least \<open>-3\<close> and less than 363; the
  same bounds hold for the angles when the trace ends.
\<close>

theorem angle_range:
  assumes "trace_result L r = Inr t"
  shows "(\<forall>c\<in>set (calls t).
            0 \<le> c_angles c ! c_dp c \<and> c_angles c ! c_dp c < 360 \<and>
            (\<forall>i<i_count_of (exprs_of L r). - 3 \<le> c_angles c ! i \<and> c_angles c ! i < 363)) \<and>
         (\<forall>i<i_count_of (exprs_of L r). - 3 \<le> angles t ! i \<and> angles t ! i < 363)"
  using trace_angles_inv [OF assms] by (simp add: angles_inv_def call_ok_def)

text \<open>
  The hypothesis of C7 holds for the trace of the example with the solver that always
  fails.
\<close>

theorem angle_range_witness:
  "trace_result (demo_libs solver_fails) (demo_result two_drivers) = Inr demo_fail_final \<and>
   0 \<le> c_angles (calls demo_fail_final ! 1) ! c_dp (calls demo_fail_final ! 1) \<and>
   c_angles (calls demo_fail_final ! 1) ! c_dp (calls demo_fail_final ! 1) < 360 \<and>
   - 3 \<le> c_angles (calls demo_fail_final ! 1) ! 0 \<and>
   c_angles (calls demo_fail_final ! 1) ! 0 < 363 \<and>
   - 3 \<le> angles demo_fail_final ! 0 \<and> angles demo_fail_final ! 0 < 363"
proof -
  have m: "calls demo_fail_final ! 1 \<in> set (calls demo_fail_final)"
    by (simp add: demo_fail_final_def)
  have z: "(0::nat) < i_count_of (exprs_of (demo_libs solver_fails) (demo_result two_drivers))"
    by (simp add: demo_exprs_2)
  from angle_range [OF demo_fail_trace] m z
  have "0 \<le> c_angles (calls demo_fail_final ! 1) ! c_dp (calls demo_fail_final ! 1) \<and>
   c_angles (calls demo_fail_final ! 1) ! c_dp (calls demo_fail_final ! 1) < 360 \<and>
   - 3 \<le> c_angles (calls demo_fail_final ! 1) ! 0 \<and>
   c_angles (calls demo_fail_final ! 1) ! 0 < 363 \<and>
   - 3 \<le> angles demo_fail_final ! 0 \<and> angles demo_fail_final ! 0 < 363"
    by blast
  with demo_fail_trace show ?thesis by blast
qed

text \<open>
  C7 as it was stated fails: when every call fails, the second call of the forward
  sweep is made with the angle \<open>-3\<close> for driver 0, left by the back-off after the
  failure at angle 0; \<open>-3\<close> is not in the range from 0 to 360.
\<close>

theorem angle_range_counterexample:
  "map_sum id (\<lambda>t. map c_angles (calls t))
     (trace_result (demo_libs solver_fails) (demo_result two_drivers)) =
   Inr [[0, 0], [- 3, 0], [0, 0], [3, 0]]"
  by (simp add: demo_fail_trace demo_fail_final_def)

subsection \<open>C8: a success of the solver\<close>

text \<open>
  Claim C8. When the solver returns a result that fits the joints, the pass of the loop
  body appends, for a sliding joint (kind \<open>P\<close> or \<open>RP\<close>), the pin of the solved pair
  to the path of the joint and sets the joint's current position to that pair of slot
  and pin; for any other joint it appends the solved coordinate. The kind of the joint
  does not change, and the next call of the solver is made with the joints as this pass
  left them.
\<close>

theorem success_appends_pin:
  assumes "solve (vpoints s) (angles s) = Inr sr" and "frame_ok (vpoints s) sr"
    and "length (path s) = vpoint_count" and "length (vpoints s) = vpoint_count"
    and "dp s < length (angles s)" and "dp s < length (angles_params s)"
    and "i < vpoint_count"
  shows "\<exists>s'. step solve vpoint_count interval s = Inr s' \<and>
           (if sliding (vpoints s ! i)
            then \<exists>slot pin. sr ! i = SlotPin slot pin \<and> path s' ! i = path s ! i @ [Pt pin] \<and>
                   vpos (vpoints s' ! i) = SlotPin slot pin
            else \<exists>c. sr ! i = Single c \<and> path s' ! i = path s ! i @ [Pt c]) \<and>
           vtype (vpoints s' ! i) = vtype (vpoints s ! i) \<and>
           (\<forall>interval' s''. step solve vpoint_count interval' s' = Inr s'' \<longrightarrow>
              c_vpoints (last (calls s'')) = vpoints s')"
proof -
  let ?s' = "succ_state interval sr s"
  have st: "step solve vpoint_count interval s = Inr ?s'"
    using assms(1-6) by (rule step_succ)
  have shape: "shape_ok (vpoints s ! i) (sr ! i)"
    using assms(2,4,7) by (simp add: frame_ok_def)
  have p: "path ?s' ! i = path s ! i @ [Pt (coord_of (sr ! i))]"
    using assms(3,7) by (simp add: succ_state_sel)
  have v: "vpoints ?s' ! i = move (vpoints s ! i) (sr ! i)"
    using assms(4,7) by (simp add: succ_state_sel)
  have "if sliding (vpoints s ! i)
        then \<exists>slot pin. sr ! i = SlotPin slot pin \<and> path ?s' ! i = path s ! i @ [Pt pin] \<and>
               vpos (vpoints ?s' ! i) = SlotPin slot pin
        else \<exists>c. sr ! i = Single c \<and> path ?s' ! i = path s ! i @ [Pt c]"
    using shape p v by (cases "sr ! i") (simp_all add: move_def)
  moreover have "vtype (vpoints ?s' ! i) = vtype (vpoints s ! i)"
    using v by (simp add: move_def)
  moreover have "\<forall>interval' s''. step solve vpoint_count interval' ?s' = Inr s'' \<longrightarrow>
              c_vpoints (last (calls s'')) = vpoints ?s'"
    using step_logs_vpoints by blast
  ultimately show ?thesis using st by blast
qed

text \<open>
  The hypotheses of C8 hold for the first pass of the example with the solver that always
  succeeds, at the sliding joint.
\<close>

theorem success_appends_pin_witness:
  "solver_succeeds [] Map.empty (vpoints (init_work demo_vpoints 1)) (angles (init_work demo_vpoints 1))
     = (Inr (demo_frame demo_vpoints) :: exn + solved list) \<and>
   frame_ok (vpoints (init_work demo_vpoints 1)) (demo_frame demo_vpoints) \<and>
   length (path (init_work demo_vpoints 1)) = 2 \<and>
   length (vpoints (init_work demo_vpoints 1)) = 2 \<and>
   dp (init_work demo_vpoints 1) < length (angles (init_work demo_vpoints 1)) \<and>
   dp (init_work demo_vpoints 1) < length (angles_params (init_work demo_vpoints 1)) \<and>
   (1::nat) < 2 \<and>
   sliding (vpoints (init_work demo_vpoints 1) ! 1) \<and>
   (\<exists>s'. step (solver_succeeds [] Map.empty) 2 3 (init_work demo_vpoints 1) = Inr s' \<and>
         path s' ! 1 = [Pt (1, 0)] \<and> vpos (vpoints s' ! 1) = SlotPin (0, 0) (1, 0))"
proof -
  let ?s = "init_work demo_vpoints 1"
  have h1: "solver_succeeds [] Map.empty (vpoints ?s) (angles ?s)
     = (Inr (demo_frame demo_vpoints) :: exn + solved list)"
    by (simp add: init_work_sel solver_succeeds_def)
  have h2: "frame_ok (vpoints ?s) (demo_frame demo_vpoints)"
    by (simp add: init_work_sel frame_ok_def demo_frame_def)
  have h3: "length (path ?s) = 2" "length (vpoints ?s) = 2"
    by (simp_all add: init_work_sel demo_vpoints_def)
  have h4: "dp ?s < length (angles ?s)" "dp ?s < length (angles_params ?s)"
    by (simp_all add: init_work_sel)
  have h5: "(1::nat) < 2" by simp
  have sl: "sliding (vpoints ?s ! 1)"
    by (simp add: init_work_sel demo_vpoints_def sliding_def)
  have fr: "demo_frame demo_vpoints ! 1 = SlotPin (0, 0) (1, 0)"
    by (simp add: demo_frame_def demo_vpoints_def sliding_def)
  have pa: "path ?s ! 1 = []"
    by (simp add: init_work_sel demo_vpoints_def)
  from success_appends_pin [of "solver_succeeds [] Map.empty" ?s "demo_frame demo_vpoints" 2 1 3]
    h1 h2 h3 h4 h5 sl fr pa
  have "\<exists>s'. step (solver_succeeds [] Map.empty) 2 3 ?s = Inr s' \<and>
         path s' ! 1 = [Pt (1, 0)] \<and> vpos (vpoints s' ! 1) = SlotPin (0, 0) (1, 0)"
    by auto
  with h1 h2 h3 h4 h5 sl show ?thesis by blast
qed

subsection \<open>C9: repeated calls\<close>



subsection \<open>C10: the drivers are the PLAP steps\<close>

text \<open>
  Claim C10. The number of drivers is the number of steps of the expression whose
  first component is \<^verbatim>\<open>PLAP\<close>. A trace that returns consists of a forward sweep and
  a backward sweep, both run with that number as the bound of the driver pointer: the
  forward sweep returns with the driver pointer at that number and has made a call for
  every driver below it; the backward sweep starts from the state the forward sweep
  left, with the pointer at 0 again, returns the final state with the pointer at that
  number, and has made a call of its own for every driver below it. Every call of the
  solver is made for a driver below that number, with that many angles. For an
  expression without such a step, the trace returns a path of \<open>vpoint_count\<close> empty
  sequences and makes no call.
\<close>

theorem driver_count_is_PLAP_count:
  "i_count_of (exprs_of L r) = length (filter (\<lambda>e. fst e = ''PLAP'') (exprs_of L r)) \<and>
   (trace_result L r = Inr t \<longrightarrow>
      (\<exists>s1 bw.
         sweep (solver_of L r) (length (vpoints_of L r)) (i_count_of (exprs_of L r)) Forward
           (init_work (vpoints_of L r) (i_count_of (exprs_of L r))) = Inr s1 \<and>
         dp s1 = i_count_of (exprs_of L r) \<and>
         sweep (solver_of L r) (length (vpoints_of L r)) (i_count_of (exprs_of L r)) Backward
           (s1\<lparr>dp := 0, angles := replicate (i_count_of (exprs_of L r)) 0\<rparr>) = Inr t \<and>
         dp t = i_count_of (exprs_of L r) \<and>
         calls t = calls s1 @ bw \<and>
         (\<forall>j<i_count_of (exprs_of L r). calls_for j (calls s1) \<noteq> [] \<and> calls_for j bw \<noteq> [])) \<and>
      (\<forall>c\<in>set (calls t). c_dp c < i_count_of (exprs_of L r) \<and>
         length (c_angles c) = i_count_of (exprs_of L r))) \<and>
   (filter (\<lambda>e. fst e = ''PLAP'') (exprs_of L r) = [] \<longrightarrow>
      (\<exists>t0. trace_result L r = Inr t0 \<and>
            path t0 = replicate (length (vpoints_of L r)) [] \<and> calls t0 = []))"
proof (intro conjI impI)
  show "i_count_of (exprs_of L r) = length (filter (\<lambda>e. fst e = ''PLAP'') (exprs_of L r))"
    by (simp add: i_count_of_def)
next
  assume t: "trace_result L r = Inr t"
  show "\<exists>s1 bw.
         sweep (solver_of L r) (length (vpoints_of L r)) (i_count_of (exprs_of L r)) Forward
           (init_work (vpoints_of L r) (i_count_of (exprs_of L r))) = Inr s1 \<and>
         dp s1 = i_count_of (exprs_of L r) \<and>
         sweep (solver_of L r) (length (vpoints_of L r)) (i_count_of (exprs_of L r)) Backward
           (s1\<lparr>dp := 0, angles := replicate (i_count_of (exprs_of L r)) 0\<rparr>) = Inr t \<and>
         dp t = i_count_of (exprs_of L r) \<and>
         calls t = calls s1 @ bw \<and>
         (\<forall>j<i_count_of (exprs_of L r). calls_for j (calls s1) \<noteq> [] \<and> calls_for j bw \<noteq> [])"
    using t by (rule trace_directions)
  show "\<forall>c\<in>set (calls t). c_dp c < i_count_of (exprs_of L r) \<and>
         length (c_angles c) = i_count_of (exprs_of L r)"
    using trace_angles_inv [OF t] by (simp add: angles_inv_def call_ok_def)
next
  assume "filter (\<lambda>e. fst e = ''PLAP'') (exprs_of L r) = []"
  then have "i_count_of (exprs_of L r) = 0" by (simp add: i_count_of_def)
  then have "trace_result L r = Inr (init_work (vpoints_of L r) 0)"
    by (simp add: trace_result_def sweep.simps init_work_def Let_def)
  then show "\<exists>t0. trace_result L r = Inr t0 \<and>
            path t0 = replicate (length (vpoints_of L r)) [] \<and> calls t0 = []"
    by (simp add: init_work_sel)
qed

text \<open>
  The hypotheses of C10 hold for the trace of the example with the solver that always
  fails, and for the empty expression.
\<close>

theorem driver_count_is_PLAP_count_witness:
  "trace_result (demo_libs solver_fails) (demo_result two_drivers) = Inr demo_fail_final \<and>
   i_count_of (exprs_of (demo_libs solver_fails) (demo_result two_drivers)) = 2 \<and>
   (\<exists>s1 bw.
      sweep (solver_of (demo_libs solver_fails) (demo_result two_drivers)) 2 2 Forward
        (init_work demo_vpoints 2) = Inr s1 \<and>
      dp s1 = 2 \<and> dp demo_fail_final = 2 \<and>
      calls demo_fail_final = calls s1 @ bw \<and>
      calls_for 1 (calls s1) \<noteq> [] \<and> calls_for 1 bw \<noteq> []) \<and>
   c_dp (calls demo_fail_final ! 3) < 2 \<and> length (c_angles (calls demo_fail_final ! 3)) = 2 \<and>
   filter (\<lambda>e. fst e = ''PLAP'') (exprs_of (demo_libs solver_fails) (demo_result [])) = [] \<and>
   (\<exists>t0. trace_result (demo_libs solver_fails) (demo_result []) = Inr t0 \<and>
         path t0 = [[], []] \<and> calls t0 = [])"
proof -
  let ?L = "demo_libs solver_fails" and ?r = "demo_result two_drivers"
  have h1: "trace_result ?L ?r = Inr demo_fail_final"
    by (rule demo_fail_trace)
  have h2: "filter (\<lambda>e. fst e = ''PLAP'') (exprs_of ?L (demo_result [])) = []"
    by (simp add: demo_exprs_empty)
  have ic: "i_count_of (exprs_of ?L ?r) = 2" by (rule demo_exprs_2)
  have vp: "vpoints_of ?L ?r = demo_vpoints" by (rule demo_vpoints_of)
  have lv: "length demo_vpoints = 2" by (simp add: demo_vpoints_def)
  have m: "calls demo_fail_final ! 3 \<in> set (calls demo_fail_final)"
    by (simp add: demo_fail_final_def)
  have one: "(1::nat) < 2" by simp
  from driver_count_is_PLAP_count [of ?L ?r demo_fail_final] h1
  have a: "(\<exists>s1 bw.
         sweep (solver_of ?L ?r) 2 2 Forward (init_work demo_vpoints 2) = Inr s1 \<and>
         dp s1 = 2 \<and>
         sweep (solver_of ?L ?r) 2 2 Backward (s1\<lparr>dp := 0, angles := replicate 2 0\<rparr>) = Inr demo_fail_final \<and>
         dp demo_fail_final = 2 \<and>
         calls demo_fail_final = calls s1 @ bw \<and>
         (\<forall>j<2. calls_for j (calls s1) \<noteq> [] \<and> calls_for j bw \<noteq> []))"
    and b: "\<forall>c\<in>set (calls demo_fail_final). c_dp c < 2 \<and> length (c_angles c) = 2"
    unfolding ic vp lv by simp_all
  from a one have a': "\<exists>s1 bw.
      sweep (solver_of ?L ?r) 2 2 Forward (init_work demo_vpoints 2) = Inr s1 \<and>
      dp s1 = 2 \<and> dp demo_fail_final = 2 \<and>
      calls demo_fail_final = calls s1 @ bw \<and>
      calls_for 1 (calls s1) \<noteq> [] \<and> calls_for 1 bw \<noteq> []"
    by blast
  from b m have b': "c_dp (calls demo_fail_final ! 3) < 2 \<and>
      length (c_angles (calls demo_fail_final ! 3)) = 2" by blast
  from driver_count_is_PLAP_count [of ?L "demo_result []"] h2
  have c: "\<exists>t0. trace_result ?L (demo_result []) = Inr t0 \<and>
         path t0 = [[], []] \<and> calls t0 = []"
    by (simp add: demo_vpoints_of demo_vpoints_def numeral_2_eq_2)
  from h1 ic a' b' h2 c show ?thesis by blast
qed

end
